theory Spec2Isabelle
  imports Complex_Main "HOL-Library.Sublist"
begin

section \<open>Text primitives of the host language\<close>

text \<open>
  The monitor is a Python program. Its text is modelled as a list of 8-bit code points
  (\<open>string\<close>); the character classes below are Python's for code points below 256.
\<close>

definition newline :: char where
  "newline = CHR 0x0A"

definition py_isspace :: "char \<Rightarrow> bool" where
  \<comment> \<open>the characters \<open>str.strip()\<close> and \<open>str.split()\<close> treat as whitespace\<close>
  "py_isspace c = (c \<in> set [CHR 0x09, CHR 0x0A, CHR 0x0B, CHR 0x0C, CHR 0x0D,
                              CHR 0x1C, CHR 0x1D, CHR 0x1E, CHR 0x1F, CHR 0x20,
                              CHR 0x85, CHR 0xA0])"

definition is_decimal :: "char \<Rightarrow> bool" where
  \<comment> \<open>\<open>\d\<close> of the regular expressions, and the digits of a float literal\<close>
  "is_decimal c = (c \<in> set ''0123456789'')"

definition is_digit_char :: "char \<Rightarrow> bool" where
  \<comment> \<open>\<open>str.isdigit()\<close> also accepts the superscript digits of Latin-1\<close>
  "is_digit_char c = (is_decimal c \<or> c \<in> set [CHR 0xB2, CHR 0xB3, CHR 0xB9])"

definition py_isdigit :: "string \<Rightarrow> bool" where
  "py_isdigit s = (s \<noteq> [] \<and> list_all is_digit_char s)"

definition py_strip :: "string \<Rightarrow> string" where
  "py_strip s = rev (dropWhile py_isspace (rev (dropWhile py_isspace s)))"

text \<open>
  \<open>s.split(sep)\<close> for a one-character separator. The result is never empty, so the
  first branch of the \<open>case\<close> is never taken.
\<close>

fun split_on :: "char \<Rightarrow> string \<Rightarrow> string list" where
  "split_on sep [] = [[]]"
| "split_on sep (c # cs) =
     (if c = sep then [] # split_on sep cs
      else (case split_on sep cs of [] \<Rightarrow> [[c]] | l # ls \<Rightarrow> (c # l) # ls))"

text \<open>\<open>s.split()\<close>: runs of whitespace separate the tokens, no token is empty.\<close>

fun split_ws :: "string \<Rightarrow> string \<Rightarrow> string list" where
  "split_ws cur [] = (if cur = [] then [] else [cur])"
| "split_ws cur (c # cs) =
     (if py_isspace c then (if cur = [] then split_ws [] cs else cur # split_ws [] cs)
      else split_ws (cur @ [c]) cs)"

definition py_split :: "string \<Rightarrow> string list" where
  "py_split s = split_ws [] s"

text \<open>\<open>sub in s\<close> on strings.\<close>

fun py_contains :: "string \<Rightarrow> string \<Rightarrow> bool" where
  "py_contains sub [] = (sub = [])"
| "py_contains sub (c # cs) = (prefix sub (c # cs) \<or> py_contains sub cs)"

text \<open>\<open>sep.join(xs)\<close>.\<close>

fun py_join :: "string \<Rightarrow> string list \<Rightarrow> string" where
  "py_join sep [] = []"
| "py_join sep [x] = x"
| "py_join sep (x # y # ys) = x @ sep @ py_join sep (y # ys)"

text \<open>\<open>a or b\<close> where \<open>a\<close> is \<open>None\<close> or a string: the empty string is falsy too.\<close>

definition py_or :: "string option \<Rightarrow> string \<Rightarrow> string" where
  "py_or a b = (case a of None \<Rightarrow> b | Some s \<Rightarrow> if s = [] then b else s)"

subsection \<open>Exceptions and checked indexing\<close>

datatype py_error = ValueError | IndexError

definition py_getitem :: "'a list \<Rightarrow> int \<Rightarrow> py_error + 'a" where
  \<comment> \<open>\<open>xs[i]\<close>: a negative index counts from the end, out of range raises\<close>
  "py_getitem xs i =
     (if 0 \<le> i \<and> i < int (length xs) then Inr (xs ! nat i)
      else if i < 0 \<and> - i \<le> int (length xs) then Inr (xs ! (length xs - nat (- i)))
      else Inl IndexError)"

subsection \<open>Which tokens \<open>float()\<close> accepts\<close>

text \<open>
  \<open>float(part)\<close> is only called for its exception. On a token without whitespace it
  succeeds exactly when, after the underscore rule (an underscore stands between two
  digits), the token is an optional sign followed by a decimal number with an optional
  exponent, or by \<open>inf\<close>, \<open>infinity\<close> or \<open>nan\<close> in any letter case.
\<close>

definition ascii_lower :: "char \<Rightarrow> char" where
  "ascii_lower c =
     (case map_of (zip ''ABCDEFGHIJKLMNOPQRSTUVWXYZ'' ''abcdefghijklmnopqrstuvwxyz'') c of
        None \<Rightarrow> c | Some l \<Rightarrow> l)"

fun underscores_ok :: "char option \<Rightarrow> string \<Rightarrow> bool" where
  "underscores_ok prev [] = (prev \<noteq> Some (CHR ''_''))"
| "underscores_ok prev (c # cs) =
     (if c = CHR ''_''
      then (case prev of None \<Rightarrow> False | Some p \<Rightarrow> is_decimal p) \<and> underscores_ok (Some c) cs
      else (prev = Some (CHR ''_'') \<longrightarrow> is_decimal c) \<and> underscores_ok (Some c) cs)"

definition strip_sign :: "string \<Rightarrow> string" where
  "strip_sign s =
     (case s of [] \<Rightarrow> [] | c # cs \<Rightarrow> if c = CHR ''+'' \<or> c = CHR ''-'' then cs else s)"

definition exponent_ok :: "string \<Rightarrow> bool" where
  "exponent_ok r =
     (case r of [] \<Rightarrow> True
      | c # cs \<Rightarrow> (c = CHR ''e'' \<or> c = CHR ''E'') \<and>
          strip_sign cs \<noteq> [] \<and> list_all is_decimal (strip_sign cs))"

definition decimal_ok :: "string \<Rightarrow> bool" where
  "decimal_ok s =
     (let ip = takeWhile is_decimal s; r1 = dropWhile is_decimal s in
      case r1 of
        [] \<Rightarrow> ip \<noteq> []
      | c # cs \<Rightarrow>
          if c = CHR ''.''
          then (ip \<noteq> [] \<or> takeWhile is_decimal cs \<noteq> []) \<and> exponent_ok (dropWhile is_decimal cs)
          else ip \<noteq> [] \<and> exponent_ok r1)"

definition inf_or_nan :: "string \<Rightarrow> bool" where
  "inf_or_nan s = (map ascii_lower s \<in> set [''inf'', ''infinity'', ''nan''])"

definition py_float_ok :: "string \<Rightarrow> bool" where
  "py_float_ok part =
     (underscores_ok None part \<and>
      (let u = strip_sign (filter (\<lambda>c. c \<noteq> CHR ''_'') part) in decimal_ok u \<or> inf_or_nan u))"

section \<open>The report parser\<close>

subsection \<open>Identity lines\<close>

text \<open>
  \<open>re.match(r'GPU (\d+): (.+)', line)\<close>. The digits are followed by a colon, which is no
  digit, so the greedy \<open>\d+\<close> is the whole run of digits; \<open>.\<close> is any character but
  the newline and \<open>.+\<close> takes all of them.
\<close>

definition re_match_gpu :: "string \<Rightarrow> (string \<times> string) option" where
  "re_match_gpu line =
     (if prefix ''GPU '' line then
        let r = drop 4 line; d = takeWhile is_decimal r; r2 = dropWhile is_decimal r in
        if d \<noteq> [] \<and> prefix '': '' r2 then
          let rest = takeWhile (\<lambda>c. c \<noteq> newline) (drop 2 r2) in
          if rest \<noteq> [] then Some (d, rest) else None
        else None
      else None)"

text \<open>
  \<open>re.search(r'GI: (\d+), CI: (\d+)', line)\<close>: the leftmost position where the pattern
  matches; again each run of digits is taken whole.
\<close>

definition gi_ci_here :: "string \<Rightarrow> (string \<times> string) option" where
  "gi_ci_here s =
     (if prefix ''GI: '' s then
        let r = drop 4 s; g = takeWhile is_decimal r; r2 = dropWhile is_decimal r in
        if g \<noteq> [] \<and> prefix '', CI: '' r2 then
          let c = takeWhile is_decimal (drop 6 r2) in
          if c \<noteq> [] then Some (g, c) else None
        else None
      else None)"

fun re_search_gi_ci :: "string \<Rightarrow> (string \<times> string) option" where
  "re_search_gi_ci [] = None"
| "re_search_gi_ci (c # cs) =
     (case gi_ci_here (c # cs) of Some m \<Rightarrow> Some m | None \<Rightarrow> re_search_gi_ci cs)"

record ident =
  i_device_id :: "string option"
  i_device_name :: "string option"
  i_gpu_instance_id :: "string option"
  i_compute_instance_id :: "string option"

definition no_ident :: ident where
  "no_ident = \<lparr>i_device_id = None, i_device_name = None,
                i_gpu_instance_id = None, i_compute_instance_id = None\<rparr>"

text \<open>The first loop over the lines; each match assigns the variables anew.\<close>

fun device_loop :: "ident \<Rightarrow> string list \<Rightarrow> ident" where
  "device_loop st [] = st"
| "device_loop st (line # lines) =
     (if prefix ''GPU '' line then
        (case re_match_gpu line of
           Some (d, n) \<Rightarrow> device_loop (st\<lparr>i_device_id := Some d, i_device_name := Some n\<rparr>) lines
         | None \<Rightarrow> device_loop st lines)
      else if py_contains ''MIG Slice'' line then
        (case re_search_gi_ci line of
           Some (g, c) \<Rightarrow>
             device_loop (st\<lparr>i_gpu_instance_id := Some g, i_compute_instance_id := Some c\<rparr>) lines
         | None \<Rightarrow> device_loop st lines)
      else device_loop st lines)"

text \<open>
  What the first loop takes from one line for the partition: the \<open>elif\<close> is reached only
  by a line that does not start with \<open>GPU\<close> and a blank.
\<close>

definition partition_match :: "string \<Rightarrow> (string \<times> string) option" where
  "partition_match line =
     (if \<not> prefix ''GPU '' line \<and> py_contains ''MIG Slice'' line
      then re_search_gi_ci line else None)"

subsection \<open>Table rows\<close>

record metric =
  m_id :: string
  m_name :: string
  m_value :: string
  m_unit :: string

text \<open>The scan for the first token \<open>float()\<close> accepts, counting from 1; \<open>-1\<close> when none.\<close>

fun find_value :: "int \<Rightarrow> string list \<Rightarrow> int" where
  "find_value i [] = -1"
| "find_value i (part # rest) = (if py_float_ok part then i else find_value (i + 1) rest)"

definition value_index :: "string list \<Rightarrow> int" where
  "value_index parts = find_value 1 (drop 1 parts)"

text \<open>The body of the \<open>try\<close>: every read of \<open>parts\<close> may raise.\<close>

definition row_body :: "string list \<Rightarrow> py_error + metric option" where
  "row_body parts =
     (case py_getitem parts 0 of
        Inl e \<Rightarrow> Inl e
      | Inr metric_id \<Rightarrow>
         (let value_idx = value_index parts in
          if value_idx > 0 then
            (let metric_name = py_join ''_'' (take (nat value_idx - 1) (drop 1 parts)) in
             (case py_getitem parts value_idx of
                Inl e \<Rightarrow> Inl e
              | Inr metric_value \<Rightarrow>
                 (case (if value_idx + 1 < int (length parts)
                        then py_getitem parts (value_idx + 1) else Inr []) of
                    Inl e \<Rightarrow> Inl e
                  | Inr metric_unit \<Rightarrow>
                     (case py_getitem parts (-1) of
                        Inl e \<Rightarrow> Inl e
                      | Inr metric_status \<Rightarrow>
                         (if metric_status = ''OK''
                          then Inr (Some \<lparr>m_id = metric_id, m_name = metric_name,
                                          m_value = metric_value, m_unit = metric_unit\<rparr>)
                          else Inr None)))))
          else Inr None))"

text \<open>
  The row test and the \<open>try\<close>/\<open>except (ValueError, IndexError): continue\<close> around the
  body. The test reads \<open>parts[0]\<close> outside the \<open>try\<close>.
\<close>

definition parse_row :: "string list \<Rightarrow> py_error + metric option" where
  "parse_row parts =
     (case (if 5 \<le> length parts
            then (case py_getitem parts 0 of Inl e \<Rightarrow> Inl e | Inr p0 \<Rightarrow> Inr (py_isdigit p0))
            else Inr False) of
        Inl e \<Rightarrow> Inl e
      | Inr False \<Rightarrow> Inr None
      | Inr True \<Rightarrow> (case row_body parts of Inl e \<Rightarrow> Inr None | Inr r \<Rightarrow> Inr r))"

definition is_header :: "string \<Rightarrow> bool" where
  "is_header line =
     (py_contains ''ID'' line \<and> py_contains ''Name'' line \<and> py_contains ''Value'' line)"

definition is_separator :: "string \<Rightarrow> bool" where
  "is_separator line = py_contains ''-----'' line"

text \<open>The second loop over the lines, with its flag and its list of metrics.\<close>

fun table_loop :: "bool \<Rightarrow> metric list \<Rightarrow> string list \<Rightarrow> py_error + metric list" where
  "table_loop in_table metrics [] = Inr metrics"
| "table_loop in_table metrics (line # lines) =
     (if is_header line then table_loop True metrics lines
      else if is_separator line then table_loop in_table metrics lines
      else if in_table \<and> py_strip line \<noteq> [] then
        (case parse_row (py_split line) of
           Inl e \<Rightarrow> Inl e
         | Inr None \<Rightarrow> table_loop in_table metrics lines
         | Inr (Some m) \<Rightarrow> table_loop in_table (metrics @ [m]) lines)
      else table_loop in_table metrics lines)"

record sample =
  device_id :: string
  device_name :: string
  gpu_instance_id :: string
  compute_instance_id :: string
  metrics :: "metric list"

definition py_lines :: "string \<Rightarrow> string list" where
  "py_lines output = split_on newline (py_strip output)"

definition parse_output :: "string \<Rightarrow> py_error + sample" where
  "parse_output output =
     (let lines = py_lines output; st = device_loop no_ident lines in
      case table_loop False [] lines of
        Inl e \<Rightarrow> Inl e
      | Inr ms \<Rightarrow>
          Inr \<lparr>device_id = py_or (i_device_id st) ''0'',
               device_name = py_or (i_device_name st) ''Unknown'',
               gpu_instance_id = py_or (i_gpu_instance_id st) [],
               compute_instance_id = py_or (i_compute_instance_id st) [],
               metrics = ms\<rparr>)"

subsection \<open>The data-row grammar in the spec's words\<close>

text \<open>
  The spec describes a data row as \<open><id> <name tokens...> <value> [<unit>] <status>\<close>:
  the first token an unsigned integer, \<open>k\<close> the position of the first later token that
  parses as a float (the value boundary), the tokens between them the name. The two
  definitions of this subsection follow that description, not the code; the theorems
  compare them with what \<open>parse_row\<close> and \<open>table_loop\<close> compute.
\<close>

definition data_row :: "string list \<Rightarrow> nat \<Rightarrow> bool" where
  "data_row parts k =
     (py_isdigit (parts ! 0) \<and> 1 \<le> k \<and> k < length parts \<and> py_float_ok (parts ! k) \<and>
      \<not> list_ex py_float_ok (take (k - 1) (drop 1 parts)))"

definition reading_at :: "string list \<Rightarrow> nat \<Rightarrow> metric" where
  "reading_at parts k =
     \<lparr>m_id = parts ! 0,
      m_name = py_join ''_'' (take (k - 1) (drop 1 parts)),
      m_value = parts ! k,
      m_unit = (if k + 1 < length parts then parts ! (k + 1) else [])\<rparr>"

section \<open>Double-precision numbers\<close>

text \<open>
  Python's \<open>float\<close> is the IEEE 754 binary64 format. A finite double is a rational
  \<open>m * 2 ^ p\<close> with \<open>\<bar>m\<bar> < 2 ^ 53\<close> and \<open>- 1074 \<le> p \<le> 971\<close>; here it is carried as
  that rational, beside the two infinities and not-a-number (the sign of a zero is not
  kept: no comparison of the program sees it). Every operation computes the exact result
  and rounds it to the nearest double, ties to the even significand.
\<close>

datatype pyfloat = Fin rat | PInf | NInf | NaN

definition pow2 :: "int \<Rightarrow> rat" where
  "pow2 e = (if 0 \<le> e then 2 ^ nat e else 1 / 2 ^ nat (- e))"

text \<open>The number of binary digits of a positive integer.\<close>

function bit_length :: "int \<Rightarrow> int" where
  "bit_length n = (if n \<le> 0 then 0 else 1 + bit_length (n div 2))"
  by pat_completeness auto
termination
  by (relation "measure nat") auto

declare bit_length.simps [simp del]

text \<open>For \<open>x > 0\<close>, the exponent \<open>e\<close> with \<open>2 ^ e \<le> x < 2 ^ (e + 1)\<close>.\<close>

definition ilog2 :: "rat \<Rightarrow> int" where
  "ilog2 x =
     (case quotient_of x of (n, d) \<Rightarrow>
        let e0 = bit_length n - bit_length d
        in if pow2 e0 \<le> x then e0 else e0 - 1)"

definition round_half_even :: "rat \<Rightarrow> int" where
  "round_half_even x =
     (let f = \<lfloor>x\<rfloor>; r = x - of_int f in
      if r < 1 / 2 then f else if 1 / 2 < r then f + 1 else if f mod 2 = 0 then f else f + 1)"

text \<open>
  Rounding to the nearest double: the significand has 53 bits, or fewer below the
  smallest normal number (exponent \<open>- 1074\<close>); a result of \<open>2 ^ 1024\<close> or more is an
  infinity.
\<close>

definition round_double :: "rat \<Rightarrow> pyfloat" where
  "round_double x =
     (if x = 0 then Fin 0
      else
        let a = \<bar>x\<bar>;
            p = max (ilog2 a - 52) (- 1074);
            m = round_half_even (a / pow2 p)
        in if 1024 < bit_length m + p then (if x < 0 then NInf else PInf)
           else Fin (if x < 0 then - (of_int m * pow2 p) else of_int m * pow2 p))"

text \<open>\<open>a - b\<close> on floats.\<close>

fun float_sub :: "pyfloat \<Rightarrow> pyfloat \<Rightarrow> pyfloat" where
  "float_sub (Fin a) (Fin b) = round_double (a - b)"
| "float_sub (Fin a) PInf = NInf"
| "float_sub (Fin a) NInf = PInf"
| "float_sub PInf (Fin b) = PInf"
| "float_sub PInf NInf = PInf"
| "float_sub NInf (Fin b) = NInf"
| "float_sub NInf PInf = NInf"
| "float_sub _ _ = NaN"

text \<open>
  The comparisons the program makes: \<open>x > 0\<close>, \<open>x >= d\<close> for an integer \<open>d\<close> (Python
  compares a float with an integer exactly) and \<open>x >= y\<close> for a finite \<open>y\<close>. Every
  comparison with not-a-number is false.
\<close>

fun float_gt_zero :: "pyfloat \<Rightarrow> bool" where
  "float_gt_zero (Fin a) = (0 < a)"
| "float_gt_zero PInf = True"
| "float_gt_zero NInf = False"
| "float_gt_zero NaN = False"

fun float_ge_int :: "pyfloat \<Rightarrow> int \<Rightarrow> bool" where
  "float_ge_int (Fin a) d = (of_int d \<le> a)"
| "float_ge_int PInf d = True"
| "float_ge_int NInf d = False"
| "float_ge_int NaN d = False"


text \<open>\<open>max(0, x)\<close>: the first argument stays unless \<open>x > 0\<close>.\<close>

definition py_max_zero :: "pyfloat \<Rightarrow> pyfloat" where
  "py_max_zero x = (if float_gt_zero x then x else Fin 0)"


section \<open>The sampling controller\<close>

subsection \<open>Writing the CSV\<close>

datatype sink_op = Write string | Flush

definition write_csv_header :: "sink_op list" where
  "write_csv_header =
     [Write ''timestamp,device_id,device_name,gpu_instance_id,compute_instance_id,'',
      Write (''metric_id,metric_name,value,unit'' @ [newline]),
      Flush]"

definition write_csv_row :: "string \<Rightarrow> sample \<Rightarrow> sink_op list" where
  "write_csv_row timestamp data =
     concat (map (\<lambda>m.
       [Write (timestamp @ '','' @ device_id data @ '','' @ device_name data @ '',''),
        Write (gpu_instance_id data @ '','' @ compute_instance_id data @ '',''),
        Write (m_id m @ '','' @ m_name m @ '','' @ m_value m @ '','' @ m_unit m @ [newline])])
       (metrics data)) @ [Flush]"

subsection \<open>Decimal text of the counters in the messages\<close>

definition digit_char :: "nat \<Rightarrow> char" where
  "digit_char n = ''0123456789'' ! (n mod 10)"

fun str_nat :: "nat \<Rightarrow> string" where
  "str_nat n = (if n < 10 then [digit_char n] else str_nat (n div 10) @ [digit_char n])"

declare str_nat.simps [simp del]

definition str_int :: "int \<Rightarrow> string" where
  "str_int i = (if i < 0 then CHR ''-'' # str_nat (nat (- i)) else str_nat (nat i))"

subsection \<open>The environment of a run\<close>

text \<open>
  What one execution of the probe gives back: a completed process with its return code,
  standard output and standard error, or one of the two exceptions \<open>run\<close> catches.
\<close>

datatype probe_result =
    Completed int string string
  | TimeoutExpired
  | FileNotFound

text \<open>
  Everything a pass through the loop reads from outside: the flag the signal handler
  clears, the clock (in the duration check, at the start of the tick and after it), the
  probe and the wall-clock timestamp. A clock reading is a finite double.
\<close>

record tick_env =
  running :: bool
  t_check :: rat
  t_start :: rat
  probe :: probe_result
  stamp :: string
  t_end :: rat

record monitor =
  binary_path :: string
  interval_ms :: int
  interval_sec :: rat
  output_file :: "string option"


text \<open>The calls \<open>run\<close> makes, in order: its trace.\<close>

datatype call =
    OpenOut string
  | WriteCsvHeader
  | WriteCsvRow string sample
  | CloseOut
  | Stderr string
  | StderrFlush
  | RunProbe string
  | Sleep pyfloat

text \<open>How a run leaves the loop; \<open>StillRunning\<close> when the environment given is used up.\<close>

datatype outcome =
    Cancelled
  | LimitReached
  | ProbeFailed
  | BinaryMissing
  | Raised py_error
  | StillRunning

definition duration_reached :: "int option \<Rightarrow> rat \<Rightarrow> rat \<Rightarrow> bool" where
  \<comment> \<open>\<open>duration_sec and (time.time() - start_time) >= duration_sec\<close>\<close>
  "duration_reached duration_sec start_time now =
     (case duration_sec of
        None \<Rightarrow> False
      | Some d \<Rightarrow> d \<noteq> 0 \<and> float_ge_int (float_sub (Fin now) (Fin start_time)) d)"

definition elapsed :: "tick_env \<Rightarrow> pyfloat" where
  \<comment> \<open>\<open>elapsed = time.time() - iter_start\<close>\<close>
  "elapsed env = float_sub (Fin (t_end env)) (Fin (t_start env))"

definition sleep_time :: "monitor \<Rightarrow> tick_env \<Rightarrow> pyfloat" where
  \<comment> \<open>\<open>sleep_time = max(0, self.interval_sec - elapsed)\<close>\<close>
  "sleep_time self env = py_max_zero (float_sub (Fin (interval_sec self)) (elapsed env))"

text \<open>
  \<open>if sleep_time > 0: time.sleep(sleep_time)\<close>. The trace records the call and its
  argument.
\<close>

definition sleep_calls :: "monitor \<Rightarrow> tick_env \<Rightarrow> call list" where
  "sleep_calls self env =
     (if float_gt_zero (sleep_time self env) then [Sleep (sleep_time self env)] else [])"

definition progress_calls :: "nat \<Rightarrow> call list" where
  "progress_calls iteration =
     (if iteration mod 10 = 0
      then [Stderr (CHR 0x0D # ''Samples collected: '' @ str_nat iteration), StderrFlush]
      else [])"

text \<open>The messages of the loop on standard error.\<close>

definition limit_message :: "int \<Rightarrow> string" where
  "limit_message d = newline # ''Reached duration limit of '' @ str_int d @ ''s'' @ [newline]"

definition error_message :: "monitor \<Rightarrow> string \<Rightarrow> string" where
  "error_message self err =
     newline # ''Error running '' @ binary_path self @ '': '' @ err @ [newline]"

definition timeout_message :: "monitor \<Rightarrow> string" where
  "timeout_message self = newline # ''Timeout running '' @ binary_path self @ [newline]"

definition not_found_message :: "monitor \<Rightarrow> string" where
  "not_found_message self = newline # ''Binary not found: '' @ binary_path self @ [newline]"

text \<open>The calls of one pass, followed by the rest of the loop.\<close>

definition and_then :: "call list \<Rightarrow> outcome \<times> nat \<times> call list \<Rightarrow> outcome \<times> nat \<times> call list" where
  "and_then cs r = (case r of (oc, n, cs') \<Rightarrow> (oc, n, cs @ cs'))"

text \<open>
  The \<open>while self.running\<close> loop: one element of the environment per pass. The result is
  how the loop was left, the final value of \<open>iteration\<close> and the calls made.
\<close>

fun run_loop :: "monitor \<Rightarrow> int option \<Rightarrow> rat \<Rightarrow> nat \<Rightarrow> tick_env list
    \<Rightarrow> outcome \<times> nat \<times> call list" where
  "run_loop self duration_sec start_time iteration [] = (StillRunning, iteration, [])"
| "run_loop self duration_sec start_time iteration (env # envs) =
     (if \<not> running env then (Cancelled, iteration, [])
      else if duration_reached duration_sec start_time (t_check env) then
        (LimitReached, iteration, [Stderr (limit_message (the duration_sec))])
      else
        (case probe env of
           Completed returncode out err \<Rightarrow>
             if returncode = 0 then
               (case parse_output out of
                  Inl e \<Rightarrow> (Raised e, iteration, [RunProbe (binary_path self)])
                | Inr data \<Rightarrow>
                    and_then
                      ([RunProbe (binary_path self), WriteCsvRow (stamp env) data]
                       @ progress_calls (iteration + 1) @ sleep_calls self env)
                      (run_loop self duration_sec start_time (iteration + 1) envs))
             else
               (ProbeFailed, iteration,
                [RunProbe (binary_path self), Stderr (error_message self err)])
         | TimeoutExpired \<Rightarrow>
             and_then
               [RunProbe (binary_path self), Stderr (timeout_message self)]
               (run_loop self duration_sec start_time iteration envs)
         | FileNotFound \<Rightarrow>
             (BinaryMissing, iteration,
              [RunProbe (binary_path self), Stderr (not_found_message self)])))"

definition opens_file :: "monitor \<Rightarrow> bool" where
  \<comment> \<open>\<open>if self.output_file\<close>: neither \<open>None\<close> nor the empty string\<close>
  "opens_file self = (case output_file self of None \<Rightarrow> False | Some f \<Rightarrow> f \<noteq> [])"

definition total_message :: "nat \<Rightarrow> string" where
  "total_message iteration =
     [newline, newline] @ ''Total samples collected: '' @ str_nat iteration @ [newline]"

text \<open>
  \<open>run\<close>: open the sink, write the header, loop, and the \<open>finally\<close> block once the loop
  is left.
\<close>

definition run :: "monitor \<Rightarrow> int option \<Rightarrow> rat \<Rightarrow> tick_env list \<Rightarrow> outcome \<times> call list" where
  "run self duration_sec start_time envs =
     (let opening =
            (if opens_file self
             then [OpenOut (the (output_file self)),
                   Stderr (''Writing to '' @ the (output_file self) @ [newline])]
             else []);
          (oc, iteration, cs) = run_loop self duration_sec start_time 0 envs;
          closing =
            (if oc = StillRunning then []
             else (if opens_file self then [CloseOut] else [])
                  @ [Stderr (total_message iteration)])
      in (oc, opening @ [WriteCsvHeader] @ cs @ closing))"

text \<open>What a trace writes to the sink, and the text that makes.\<close>

fun sink_ops :: "call \<Rightarrow> sink_op list" where
  "sink_ops WriteCsvHeader = write_csv_header"
| "sink_ops (WriteCsvRow timestamp data) = write_csv_row timestamp data"
| "sink_ops _ = []"

fun written :: "sink_op \<Rightarrow> string" where
  "written (Write s) = s"
| "written Flush = []"

definition out_text :: "call list \<Rightarrow> string" where
  "out_text cs = concat (map written (concat (map sink_ops cs)))"

fun is_row_call :: "call \<Rightarrow> bool" where
  "is_row_call (WriteCsvRow timestamp data) = True"
| "is_row_call _ = False"

text \<open>A pass that neither cancels nor fails: the flag is set and the probe succeeds or times out.\<close>

definition tick_goes_on :: "tick_env \<Rightarrow> bool" where
  "tick_goes_on env =
     (running env \<and>
      (case probe env of
         Completed returncode out err \<Rightarrow> returncode = 0
       | TimeoutExpired \<Rightarrow> True
       | FileNotFound \<Rightarrow> False))"

section \<open>Reports and runs used as examples\<close>

text \<open>
  A report with two device lines and two partition lines: the Sample carries the second of
  each.
\<close>

definition two_identities :: string where
  "two_identities =
     ''GPU 0: First'' @ [newline] @ ''MIG Slice GI: 1, CI: 2'' @ [newline] @
     ''GPU 1: Second'' @ [newline] @ ''MIG Slice GI: 3, CI: 4''"

text \<open>A table with one healthy five-column row, after a device line and a separator.\<close>

definition power_report :: string where
  "power_report =
     ''GPU 0: NVIDIA A100'' @ [newline] @ ''ID Name Value Unit Status'' @ [newline] @
     ''-------------------------'' @ [newline] @ ''3 Power Usage 42.5 W OK''"

text \<open>A table whose only row has four tokens: id, a one-word name, value, status.\<close>

definition short_row_report :: string where
  "short_row_report =
     ''ID Name Value Unit Status'' @ [newline] @ ''3 Power 42.5 OK''"

text \<open>Two healthy rows with a row in between that has no value.\<close>

definition broken_row_report :: string where
  "broken_row_report =
     ''ID Name Value Unit Status'' @ [newline] @ ''1 SM Util 12.5 % OK'' @ [newline] @
     ''2 Memory Util n/a % OK'' @ [newline] @ ''3 Power Usage 42.5 W OK''"

text \<open>
  Three rows of the table without a unit (id, a one-word name, value or no value,
  status), and three five-column rows of which the second has a superscript two as its id.
\<close>

definition unitless_rows_report :: string where
  "unitless_rows_report =
     ''ID Name Value Unit Status'' @ [newline] @ ''1 Power 42.5 OK'' @ [newline] @
     ''2 Memory n/a OK'' @ [newline] @ ''3 Temp 50 OK''"

definition superscript_id_report :: string where
  "superscript_id_report =
     ''ID Name Value Unit Status'' @ [newline] @ ''1 SM Util 12.5 % OK'' @ [newline] @
     (CHR 0xB2 # '' Memory Util 7.5 % OK'') @ [newline] @ ''3 Power Usage 42.5 W OK''"

text \<open>A table where no row is healthy, and one where the second of two rows is.\<close>

definition unhealthy_report :: string where
  "unhealthy_report =
     ''GPU 0: NVIDIA A100'' @ [newline] @ ''ID Name Value Unit Status'' @ [newline] @
     ''1 SM Util 12.5 % ERR'' @ [newline] @ ''3 Power Usage 42.5 W N/A''"

definition mixed_report :: string where
  "mixed_report =
     ''ID Name Value Unit Status'' @ [newline] @
     ''1 SM Util 12.5 % ERR'' @ [newline] @ ''3 Power Usage 42.5 W OK''"

text \<open>
  A monitor writing to a file once a second, and a run of four passes: a probe that
  succeeds after a quarter of a second, one that times out, one that succeeds after a
  second and a half, and a probe binary that has gone missing.
\<close>

definition demo_monitor :: monitor where
  "demo_monitor =
     \<lparr>binary_path = ''./gpm_metrics_reader'', interval_ms = 1000, interval_sec = 1,
      output_file = Some ''out.csv''\<rparr>"

definition quick_tick :: tick_env where
  "quick_tick =
     \<lparr>running = True, t_check = 0, t_start = 0, probe = Completed 0 mixed_report [],
      stamp = ''2024-01-01T00:00:00'', t_end = 1 / 4\<rparr>"

definition timeout_tick :: tick_env where
  "timeout_tick =
     \<lparr>running = True, t_check = 1, t_start = 1, probe = TimeoutExpired,
      stamp = [], t_end = 11\<rparr>"

definition slow_tick :: tick_env where
  "slow_tick =
     \<lparr>running = True, t_check = 11, t_start = 11, probe = Completed 0 unhealthy_report [],
      stamp = ''2024-01-01T00:00:11'', t_end = 25 / 2\<rparr>"

definition missing_tick :: tick_env where
  "missing_tick =
     \<lparr>running = True, t_check = 25 / 2, t_start = 25 / 2, probe = FileNotFound,
      stamp = [], t_end = 25 / 2\<rparr>"

definition failing_tick :: tick_env where
  "failing_tick =
     \<lparr>running = True, t_check = 25 / 2, t_start = 25 / 2,
      probe = Completed 1 [] ''no device'', stamp = [], t_end = 25 / 2\<rparr>"

definition cancelled_tick :: tick_env where
  "cancelled_tick =
     \<lparr>running = False, t_check = 13, t_start = 13, probe = TimeoutExpired,
      stamp = [], t_end = 13\<rparr>"


text \<open>
  A run started at the double nearest to 0.1 and a pass whose duration check reads the
  double nearest to 12.1.
\<close>

definition tenth :: rat where
  "tenth = 3602879701896397 / 2 ^ 55"

definition late_tick :: tick_env where
  "late_tick =
     \<lparr>running = True, t_check = 6811694436397875 / 2 ^ 49, t_start = 6811694436397875 / 2 ^ 49,
      probe = Completed 0 mixed_report [], stamp = ''2024-01-01T00:00:12'',
      t_end = 6811694436397875 / 2 ^ 49\<rparr>"


section \<open>Properties of the parser\<close>

subsection \<open>Rows\<close>

lemma py_getitem_nat: "k < length xs \<Longrightarrow> py_getitem xs (int k) = Inr (xs ! k)"
  by (simp add: py_getitem_def)

lemma py_getitem_zero: "xs \<noteq> [] \<Longrightarrow> py_getitem xs 0 = Inr (xs ! 0)"
  by (simp add: py_getitem_def)

lemma py_getitem_last: "xs \<noteq> [] \<Longrightarrow> py_getitem xs (- 1) = Inr (last xs)"
  by (cases xs rule: rev_cases) (simp_all add: py_getitem_def nth_append)

lemma find_value_range:
  "find_value i ps = - 1 \<or> (i \<le> find_value i ps \<and> find_value i ps < i + int (length ps))"
  by (induction ps arbitrary: i) (auto, force+)

lemma find_value_none: "\<not> list_ex py_float_ok ps \<Longrightarrow> i > 0 \<Longrightarrow> find_value i ps = - 1"
  by (induction ps arbitrary: i) auto

lemma find_value_first:
  "k < length ps \<Longrightarrow> py_float_ok (ps ! k) \<Longrightarrow> \<not> list_ex py_float_ok (take k ps)
   \<Longrightarrow> find_value i ps = i + int k"
proof (induction ps arbitrary: i k)
  case Nil
  then show ?case by simp
next
  case (Cons p ps)
  show ?case
  proof (cases k)
    case 0
    with Cons.prems show ?thesis by simp
  next
    case (Suc k')
    with Cons.prems have "\<not> py_float_ok p" "k' < length ps" "py_float_ok (ps ! k')"
      "\<not> list_ex py_float_ok (take k' ps)" by simp_all
    with Cons.IH [of k' "i + 1"] Suc show ?thesis by simp
  qed
qed

lemma find_value_hit:
  "0 < i \<Longrightarrow> 0 < find_value i ps \<Longrightarrow>
     py_float_ok (ps ! nat (find_value i ps - i)) \<and>
     \<not> list_ex py_float_ok (take (nat (find_value i ps - i)) ps)"
proof (induction ps arbitrary: i)
  case Nil
  then show ?case by simp
next
  case (Cons p ps)
  show ?case
  proof (cases "py_float_ok p")
    case True
    then show ?thesis by simp
  next
    case False
    from Cons.prems False have pos: "0 < find_value (i + 1) ps" by simp
    from find_value_range [of "i + 1" ps] pos
    have rng: "i + 1 \<le> find_value (i + 1) ps" by auto
    from Cons.IH [of "i + 1"] Cons.prems(1) pos
    have ih: "py_float_ok (ps ! nat (find_value (i + 1) ps - (i + 1)))"
      "\<not> list_ex py_float_ok (take (nat (find_value (i + 1) ps - (i + 1))) ps)" by simp_all
    from rng have eq: "nat (find_value (i + 1) ps - i) = Suc (nat (find_value (i + 1) ps - (i + 1)))"
      by simp
    show ?thesis using False ih by (simp add: eq)
  qed
qed

lemma value_index_first:
  assumes "1 \<le> k" "k < length parts" "py_float_ok (parts ! k)"
    "\<not> list_ex py_float_ok (take (k - 1) (drop 1 parts))"
  shows "value_index parts = int k"
proof -
  from assms have "k - 1 < length (drop 1 parts)" "py_float_ok (drop 1 parts ! (k - 1))"
    by simp_all
  from find_value_first [OF this assms(4), of 1] assms(1) show ?thesis
    by (simp add: value_index_def)
qed

lemma row_body_data_row:
  assumes "data_row parts k"
  shows "row_body parts = Inr (if last parts = ''OK'' then Some (reading_at parts k) else None)"
proof -
  from assms have k: "1 \<le> k" "k < length parts" and ne: "parts \<noteq> []"
    by (auto simp: data_row_def)
  from assms have vi: "value_index parts = int k"
    by (intro value_index_first) (simp_all add: data_row_def)
  have g1: "py_getitem parts (int k) = Inr (parts ! k)" using k by (simp add: py_getitem_nat)
  have g2: "k + 1 < length parts \<Longrightarrow> py_getitem parts (int k + 1) = Inr (parts ! (k + 1))"
    using py_getitem_nat [of "k + 1" parts] by (simp add: add.commute)
  show ?thesis
    using k by (simp add: row_body_def vi py_getitem_zero [OF ne] py_getitem_last [OF ne] g1 g2
      reading_at_def)
qed

lemma parse_row_total: "\<exists>r. parse_row parts = Inr r"
proof (cases "5 \<le> length parts")
  case True
  then have "parts \<noteq> []" by auto
  then show ?thesis
    by (simp add: parse_row_def True py_getitem_zero split: sum.splits bool.splits)
next
  case False
  then show ?thesis by (simp add: parse_row_def)
qed

lemma parse_row_data_row:
  assumes "5 \<le> length parts" "data_row parts k"
  shows "parse_row parts = Inr (if last parts = ''OK'' then Some (reading_at parts k) else None)"
proof -
  from assms(1) have ne: "parts \<noteq> []" by auto
  from assms(2) have "py_isdigit (parts ! 0)" by (simp add: data_row_def)
  then show ?thesis
    using assms(1) by (simp add: parse_row_def py_getitem_zero [OF ne] row_body_data_row [OF assms(2)])
qed

lemma parse_row_short: "length parts < 5 \<Longrightarrow> parse_row parts = Inr None"
  by (simp add: parse_row_def)

lemma parse_row_SomeD:
  assumes "parse_row parts = Inr (Some m)"
  shows "5 \<le> length parts \<and> last parts = ''OK'' \<and> (\<exists>k. data_row parts k \<and> m = reading_at parts k)"
proof -
  from assms have len: "5 \<le> length parts" by (auto simp: parse_row_def split: if_splits)
  then have ne: "parts \<noteq> []" by auto
  from assms len have dig: "py_isdigit (parts ! 0)" and rb: "row_body parts = Inr (Some m)"
    by (auto simp: parse_row_def py_getitem_zero [OF ne] split: if_splits sum.splits bool.splits)
  from rb have pos: "0 < value_index parts"
    by (auto simp: row_body_def py_getitem_zero [OF ne] Let_def split: if_splits)
  define k where "k = nat (value_index parts)"
  from find_value_range [of 1 "drop 1 parts"] pos
  have rng: "1 \<le> value_index parts" "value_index parts < 1 + int (length (drop 1 parts))"
    by (auto simp: value_index_def)
  then have k: "1 \<le> k" "k < length parts" by (auto simp: k_def)
  from find_value_hit [of 1 "drop 1 parts"] pos
  have hit: "py_float_ok (drop 1 parts ! nat (value_index parts - 1))"
    "\<not> list_ex py_float_ok (take (nat (value_index parts - 1)) (drop 1 parts))"
    by (simp_all add: value_index_def)
  have km: "nat (value_index parts - 1) = k - 1" by (simp add: k_def nat_diff_distrib)
  from hit k have dr: "data_row parts k" using dig by (simp add: data_row_def km)
  from row_body_data_row [OF dr] rb have "last parts = ''OK''" "m = reading_at parts k"
    by (auto split: if_splits)
  with len dr show ?thesis by blast
qed

subsection \<open>The table loop\<close>

lemma table_loop_total: "\<exists>r. table_loop b ms ls = Inr r"
proof (induction ls arbitrary: b ms)
  case Nil
  then show ?case by simp
next
  case (Cons l ls)
  obtain r where r: "parse_row (py_split l) = Inr r" using parse_row_total by blast
  show ?case using Cons.IH r by (cases r) auto
qed

lemma table_loop_acc:
  "table_loop b ms ls = Inr r \<Longrightarrow> table_loop b (ms0 @ ms) ls = Inr (ms0 @ r)"
proof (induction ls arbitrary: b ms r)
  case Nil
  then show ?case by simp
next
  case (Cons l ls)
  obtain x where x: "parse_row (py_split l) = Inr x" using parse_row_total by blast
  show ?case using Cons.IH Cons.prems x by (cases x) (auto split: if_splits)
qed

lemma table_loop_append:
  "table_loop b ms xs = Inr r \<Longrightarrow>
   table_loop b ms (xs @ ys) = table_loop (b \<or> list_ex is_header xs) r ys"
proof (induction xs arbitrary: b ms r)
  case Nil
  then show ?case by simp
next
  case (Cons l ls)
  obtain x where x: "parse_row (py_split l) = Inr x" using parse_row_total by blast
  show ?case using Cons.IH Cons.prems x by (cases x) (auto split: if_splits)
qed

lemma table_loop_from_empty:
  assumes "table_loop b [] ls = Inr r"
  shows "table_loop b ms ls = Inr (ms @ r)"
  using table_loop_acc [OF assms, of ms] by simp

lemma parse_output_total: "\<exists>s. parse_output output = Inr s"
proof -
  obtain ms where "table_loop False [] (py_lines output) = Inr ms"
    using table_loop_total by blast
  then show ?thesis by (simp add: parse_output_def Let_def)
qed

lemma parse_output_metrics:
  "parse_output output = Inr s \<Longrightarrow> table_loop False [] (py_lines output) = Inr (metrics s)"
  by (auto simp: parse_output_def Let_def split: sum.splits)

lemma split_ws_Nil: "split_ws cur s = [] \<longleftrightarrow> cur = [] \<and> list_all py_isspace s"
  by (induction s arbitrary: cur) auto

lemma py_strip_Nil: "py_strip s = [] \<longleftrightarrow> list_all py_isspace s"
proof
  assume "py_strip s = []"
  then have a: "\<forall>c\<in>set (dropWhile py_isspace s). py_isspace c"
    by (simp add: py_strip_def)
  have "dropWhile py_isspace s = []"
  proof (rule ccontr)
    assume ne: "dropWhile py_isspace s \<noteq> []"
    then have "\<not> py_isspace (hd (dropWhile py_isspace s))" by (rule hd_dropWhile)
    moreover from ne have "hd (dropWhile py_isspace s) \<in> set (dropWhile py_isspace s)" by simp
    ultimately show False using a by blast
  qed
  then show "list_all py_isspace s" by (simp add: list_all_iff)
next
  assume "list_all py_isspace s"
  then have "dropWhile py_isspace s = []" by (simp add: list_all_iff)
  then show "py_strip s = []" by (simp only: py_strip_def dropWhile.simps rev.simps)
qed

lemma py_strip_split: "py_strip line = [] \<longleftrightarrow> py_split line = []"
  by (simp add: py_strip_Nil py_split_def split_ws_Nil)

lemma table_loop_row:
  assumes "\<not> is_header line" "\<not> is_separator line" "5 \<le> length (py_split line)"
    "data_row (py_split line) k" "last (py_split line) = ''OK''"
  shows "table_loop True ms (line # rest) =
         table_loop True (ms @ [reading_at (py_split line) k]) rest"
proof -
  from assms(3) have "py_split line \<noteq> []" by auto
  then have "py_strip line \<noteq> []" by (simp add: py_strip_split)
  then show ?thesis
    using assms parse_row_data_row [OF assms(3,4)] by simp
qed

lemma table_loop_no_reading:
  assumes "parse_row (py_split line) = Inr None"
  shows "table_loop b ms (line # rest) = table_loop (b \<or> is_header line) ms rest"
  using assms by simp

lemma data_row_has_float:
  assumes "data_row parts k"
  shows "list_ex py_float_ok (drop 1 parts)"
proof -
  from assms have k: "1 \<le> k" "k < length parts" and f: "py_float_ok (parts ! k)"
    by (simp_all add: data_row_def)
  from k have "k - 1 < length (drop 1 parts)" "drop 1 parts ! (k - 1) = parts ! k" by simp_all
  then have "parts ! k \<in> set (drop 1 parts)" by (metis nth_mem)
  with f show ?thesis unfolding list_ex_iff by blast
qed

lemma table_loop_skip:
  assumes "py_split line = [] \<or> last (py_split line) \<noteq> ''OK'' \<or> length (py_split line) < 5 \<or>
    \<not> py_isdigit (py_split line ! 0) \<or> \<not> list_ex py_float_ok (drop 1 (py_split line))"
  shows "table_loop b ms (line # rest) = table_loop (b \<or> is_header line) ms rest"
proof -
  obtain r where r: "parse_row (py_split line) = Inr r" using parse_row_total by blast
  have "r = None"
  proof (cases r)
    case None
    then show ?thesis .
  next
    case (Some m)
    from parse_row_SomeD [OF r [unfolded Some]]
    obtain k where "5 \<le> length (py_split line)" "last (py_split line) = ''OK''"
      "data_row (py_split line) k" by blast
    moreover from this have "list_ex py_float_ok (drop 1 (py_split line))"
      by (intro data_row_has_float)
    ultimately have False using assms by (auto simp: data_row_def)
    then show ?thesis ..
  qed
  with r show ?thesis by (intro table_loop_no_reading) simp
qed

lemma table_loop_members:
  "table_loop b ms ls = Inr r \<Longrightarrow> m \<in> set r \<Longrightarrow>
     m \<in> set ms \<or> (\<exists>l\<in>set ls. parse_row (py_split l) = Inr (Some m))"
proof (induction ls arbitrary: b ms)
  case Nil
  then show ?case by simp
next
  case (Cons l ls)
  obtain x where x: "parse_row (py_split l) = Inr x" using parse_row_total by blast
  show ?case
  proof (cases x)
    case None
    with Cons.prems x have "\<exists>b'. table_loop b' ms ls = Inr r" by (auto split: if_splits)
    with Cons.IH Cons.prems(2) show ?thesis by fastforce
  next
    case (Some m')
    with Cons.prems x
    have "(\<exists>b'. table_loop b' ms ls = Inr r) \<or> (\<exists>b'. table_loop b' (ms @ [m']) ls = Inr r)"
      by (auto split: if_splits)
    then show ?thesis
    proof
      assume "\<exists>b'. table_loop b' ms ls = Inr r"
      with Cons.IH Cons.prems(2) show ?thesis by fastforce
    next
      assume "\<exists>b'. table_loop b' (ms @ [m']) ls = Inr r"
      then obtain b' where "table_loop b' (ms @ [m']) ls = Inr r" ..
      from Cons.IH [OF this Cons.prems(2)] x Some show ?thesis by auto
    qed
  qed
qed

lemma table_loop_all_skipped:
  "list_all (\<lambda>l. py_split l = [] \<or> last (py_split l) \<noteq> ''OK'') ls \<Longrightarrow>
   table_loop b ms ls = Inr ms"
proof (induction ls arbitrary: b)
  case Nil
  then show ?case by simp
next
  case (Cons l ls)
  then have "py_split l = [] \<or> last (py_split l) \<noteq> ''OK'' \<or> length (py_split l) < 5 \<or>
    \<not> py_isdigit (py_split l ! 0) \<or> \<not> list_ex py_float_ok (drop 1 (py_split l))" by auto
  from table_loop_skip [OF this] Cons show ?case by simp
qed

subsection \<open>The identity loop\<close>

lemma re_match_gpu_nonempty: "re_match_gpu l = Some (d, n) \<Longrightarrow> d \<noteq> [] \<and> n \<noteq> []"
  by (auto simp: re_match_gpu_def Let_def split: if_splits)

lemma re_match_gpu_prefix: "\<not> prefix ''GPU '' l \<Longrightarrow> re_match_gpu l = None"
  by (simp add: re_match_gpu_def)

lemma gi_ci_here_nonempty: "gi_ci_here l = Some (g, c) \<Longrightarrow> g \<noteq> [] \<and> c \<noteq> []"
  by (auto simp: gi_ci_here_def Let_def split: if_splits)

lemma re_search_gi_ci_nonempty: "re_search_gi_ci l = Some (g, c) \<Longrightarrow> g \<noteq> [] \<and> c \<noteq> []"
  by (induction l) (auto split: option.splits dest: gi_ci_here_nonempty)

lemma partition_match_nonempty: "partition_match l = Some (g, c) \<Longrightarrow> g \<noteq> [] \<and> c \<noteq> []"
  by (auto simp: partition_match_def split: if_splits dest: re_search_gi_ci_nonempty)

lemma device_loop_device:
  "(i_device_id (device_loop st ls), i_device_name (device_loop st ls)) =
     (case List.map_filter re_match_gpu ls of
        [] \<Rightarrow> (i_device_id st, i_device_name st)
      | d # ds \<Rightarrow> (Some (fst (last (d # ds))), Some (snd (last (d # ds)))))"
proof (induction ls arbitrary: st)
  case Nil
  then show ?case by simp
next
  case (Cons l ls)
  show ?case
  proof (cases "re_match_gpu l")
    case None
    then show ?thesis
      using Cons.IH by (auto split: option.splits list.splits)
  next
    case (Some m)
    then have "prefix ''GPU '' l" using re_match_gpu_prefix by fastforce
    then show ?thesis
      using Some Cons.IH [of "st\<lparr>i_device_id := Some (fst m), i_device_name := Some (snd m)\<rparr>"]
      by (cases m) (auto split: list.splits)
  qed
qed

lemma device_loop_partition:
  "(i_gpu_instance_id (device_loop st ls), i_compute_instance_id (device_loop st ls)) =
     (case List.map_filter partition_match ls of
        [] \<Rightarrow> (i_gpu_instance_id st, i_compute_instance_id st)
      | p # ps \<Rightarrow> (Some (fst (last (p # ps))), Some (snd (last (p # ps)))))"
proof (induction ls arbitrary: st)
  case Nil
  then show ?case by simp
next
  case (Cons l ls)
  show ?case
  proof (cases "partition_match l")
    case None
    then show ?thesis
      using Cons.IH
      by (auto simp: partition_match_def split: option.splits list.splits if_splits)
  next
    case (Some m)
    then have "\<not> prefix ''GPU '' l" "py_contains ''MIG Slice'' l" "re_search_gi_ci l = Some m"
      by (auto simp: partition_match_def split: if_splits)
    then show ?thesis
      using Some
        Cons.IH [of "st\<lparr>i_gpu_instance_id := Some (fst m), i_compute_instance_id := Some (snd m)\<rparr>"]
      by (cases m) (auto split: list.splits)
  qed
qed

lemma map_filter_last_in:
  "List.map_filter f ls = d # ds \<Longrightarrow> \<exists>l\<in>set ls. f l = Some (last (d # ds))"
proof -
  assume a: "List.map_filter f ls = d # ds"
  have "last (d # ds) \<in> set (List.map_filter f ls)" unfolding a by (rule last_in_set) simp
  then show ?thesis by (auto simp: map_filter_def)
qed

lemma map_filter_all_None:
  "list_all (\<lambda>l. f l = None) ls \<Longrightarrow> List.map_filter f ls = []"
  by (induction ls) simp_all

section \<open>Properties of the controller\<close>

lemma and_then_simps [simp]:
  "and_then cs (oc, n, cs') = (oc, n, cs @ cs')"
  by (simp add: and_then_def)

lemma and_then_parts:
  "fst (and_then cs r) = fst r"
  "fst (snd (and_then cs r)) = fst (snd r)"
  "snd (snd (and_then cs r)) = cs @ snd (snd r)"
  by (cases r; simp)+

lemma run_loop_success:
  assumes "running env" "\<not> duration_reached d st (t_check env)" "probe env = Completed 0 out err"
  shows "\<exists>data. parse_output out = Inr data \<and>
           run_loop self d st it (env # envs) =
             and_then ([RunProbe (binary_path self), WriteCsvRow (stamp env) data]
                       @ progress_calls (it + 1) @ sleep_calls self env)
                      (run_loop self d st (it + 1) envs)"
proof -
  obtain data where "parse_output out = Inr data" using parse_output_total by blast
  with assms show ?thesis by simp
qed

lemma run_loop_cases:
  obtains (cancel) "\<not> running env" "run_loop self d st it (env # envs) = (Cancelled, it, [])"
  | (limit) dd where "running env" "d = Some dd" "dd \<noteq> 0"
      "float_ge_int (float_sub (Fin (t_check env)) (Fin st)) dd"
      "run_loop self d st it (env # envs) = (LimitReached, it, [Stderr (limit_message dd)])"
  | (success) out err data where "running env" "\<not> duration_reached d st (t_check env)"
      "probe env = Completed 0 out err" "parse_output out = Inr data"
      "run_loop self d st it (env # envs) =
         and_then ([RunProbe (binary_path self), WriteCsvRow (stamp env) data]
                   @ progress_calls (it + 1) @ sleep_calls self env)
                  (run_loop self d st (it + 1) envs)"
  | (failed) rc out err where "running env" "\<not> duration_reached d st (t_check env)"
      "probe env = Completed rc out err" "rc \<noteq> 0"
      "run_loop self d st it (env # envs) =
         (ProbeFailed, it, [RunProbe (binary_path self), Stderr (error_message self err)])"
  | (timeout) "running env" "\<not> duration_reached d st (t_check env)"
      "probe env = TimeoutExpired"
      "run_loop self d st it (env # envs) =
         and_then [RunProbe (binary_path self), Stderr (timeout_message self)]
                  (run_loop self d st it envs)"
  | (missing) "running env" "\<not> duration_reached d st (t_check env)"
      "probe env = FileNotFound"
      "run_loop self d st it (env # envs) =
         (BinaryMissing, it, [RunProbe (binary_path self), Stderr (not_found_message self)])"
proof (cases "running env")
  case False
  then show ?thesis using cancel by simp
next
  case run: True
  show ?thesis
  proof (cases "duration_reached d st (t_check env)")
    case True
    then obtain dd where "d = Some dd" "dd \<noteq> 0"
      "float_ge_int (float_sub (Fin (t_check env)) (Fin st)) dd"
      by (auto simp: duration_reached_def split: option.splits)
    with run True show ?thesis using limit by simp
  next
    case nr: False
    show ?thesis
    proof (cases "probe env")
      case (Completed rc out err)
      show ?thesis
      proof (cases "rc = 0")
        case True
        obtain data where "parse_output out = Inr data" using parse_output_total by blast
        with run nr Completed True show ?thesis using success [of out err data] by simp
      next
        case False
        with run nr Completed show ?thesis using failed [of rc out err] by simp
      qed
    next
      case TimeoutExpired
      with run nr show ?thesis using timeout by simp
    next
      case FileNotFound
      with run nr show ?thesis using missing by simp
    qed
  qed
qed

lemma progress_calls_plain:
  "WriteCsvHeader \<notin> set (progress_calls n)" "\<not> list_ex is_row_call (progress_calls n)"
  by (simp_all add: progress_calls_def)

lemma sleep_calls_plain:
  "WriteCsvHeader \<notin> set (sleep_calls self env)" "\<not> list_ex is_row_call (sleep_calls self env)"
  by (simp_all add: sleep_calls_def)

lemma run_loop_no_header: "WriteCsvHeader \<notin> set (snd (snd (run_loop self d st it envs)))"
proof (induction envs arbitrary: it)
  case Nil
  then show ?case by simp
next
  case (Cons env envs)
  show ?case
    by (cases rule: run_loop_cases [of env self d st it envs])
       (use Cons.IH in \<open>simp_all add: and_then_parts progress_calls_plain sleep_calls_plain\<close>)
qed

lemma run_loop_count:
  "fst (snd (run_loop self d st it envs)) =
     it + length (filter is_row_call (snd (snd (run_loop self d st it envs))))"
proof (induction envs arbitrary: it)
  case Nil
  then show ?case by simp
next
  case (Cons env envs)
  have p: "filter is_row_call (progress_calls n) = []" for n
    by (simp add: progress_calls_def)
  have s: "filter is_row_call (sleep_calls self env) = []"
    by (simp add: sleep_calls_def)
  show ?case
    by (cases rule: run_loop_cases [of env self d st it envs])
       (use Cons.IH in \<open>simp_all add: and_then_parts p s\<close>)
qed

lemma and_then_and_then: "and_then xs (and_then ys r) = and_then (xs @ ys) r"
  by (cases r) simp

lemma and_then_eq_StillRunning:
  "and_then xs r = (StillRunning, n, cs) \<Longrightarrow> \<exists>cs'. r = (StillRunning, n, cs') \<and> cs = xs @ cs'"
  by (cases r) auto

lemma run_loop_append:
  "run_loop self d st it pre = (StillRunning, n, cs) \<Longrightarrow>
   run_loop self d st it (pre @ post) = and_then cs (run_loop self d st n post)"
proof (induction pre arbitrary: it cs)
  case Nil
  then show ?case by (cases "run_loop self d st n post") simp
next
  case (Cons env pre)
  show ?case
  proof (cases rule: run_loop_cases [of env self d st it pre])
    case (success out err data)
    let ?xs = "[RunProbe (binary_path self), WriteCsvRow (stamp env) data]
                   @ progress_calls (it + 1) @ sleep_calls self env"
    from Cons.prems success(5) obtain cs' where
      r: "run_loop self d st (it + 1) pre = (StillRunning, n, cs')" and cs: "cs = ?xs @ cs'"
      using and_then_eq_StillRunning [of ?xs] by metis
    from run_loop_success [OF success(1,2,3), of self it "pre @ post"] success(4)
    have "run_loop self d st it ((env # pre) @ post) =
            and_then ?xs (run_loop self d st (it + 1) (pre @ post))" by simp
    also have "\<dots> = and_then ?xs (and_then cs' (run_loop self d st n post))"
      using Cons.IH [OF r] by simp
    finally show ?thesis by (simp add: and_then_and_then cs)
  next
    case timeout
    let ?xs = "[RunProbe (binary_path self), Stderr (timeout_message self)]"
    from Cons.prems timeout(4) obtain cs' where
      r: "run_loop self d st it pre = (StillRunning, n, cs')" and cs: "cs = ?xs @ cs'"
      using and_then_eq_StillRunning [of ?xs] by metis
    have "run_loop self d st it ((env # pre) @ post) =
            and_then ?xs (run_loop self d st it (pre @ post))"
      using timeout(1,2,3) by simp
    also have "\<dots> = and_then ?xs (and_then cs' (run_loop self d st n post))"
      using Cons.IH [OF r] by simp
    finally show ?thesis by (simp add: and_then_and_then cs)
  qed (use Cons.prems in simp_all)
qed

lemma run_loop_limit_split:
  "fst (run_loop self dur st it envs) = LimitReached \<Longrightarrow>
   \<exists>d pre env post n cs. dur = Some d \<and> d \<noteq> 0 \<and> envs = pre @ env # post \<and>
      run_loop self dur st it pre = (StillRunning, n, cs) \<and> running env \<and>
      float_ge_int (float_sub (Fin (t_check env)) (Fin st)) d \<and>
      run_loop self dur st it envs = (LimitReached, n, cs @ [Stderr (limit_message d)])"
proof (induction envs arbitrary: it)
  case Nil
  then show ?case by simp
next
  case (Cons env envs)
  show ?case
  proof (cases rule: run_loop_cases [of env self dur st it envs])
    case (limit dd)
    have "run_loop self dur st it [] = (StillRunning, it, [])" by simp
    with limit show ?thesis by (metis append_Nil)
  next
    case (success out err data)
    let ?xs = "[RunProbe (binary_path self), WriteCsvRow (stamp env) data]
                   @ progress_calls (it + 1) @ sleep_calls self env"
    from Cons.prems success(5) have "fst (run_loop self dur st (it + 1) envs) = LimitReached"
      by (simp add: and_then_parts)
    from Cons.IH [OF this] obtain d pre e post n cs where
      h: "dur = Some d" "d \<noteq> 0" "envs = pre @ e # post"
        "run_loop self dur st (it + 1) pre = (StillRunning, n, cs)" "running e"
        "float_ge_int (float_sub (Fin (t_check e)) (Fin st)) d"
        "run_loop self dur st (it + 1) envs = (LimitReached, n, cs @ [Stderr (limit_message d)])"
      by blast
    from run_loop_success [OF success(1,2,3), of self it pre] success(4) h(4)
    have a: "run_loop self dur st it (env # pre) = (StillRunning, n, ?xs @ cs)" by simp
    from success(5) h(7)
    have b: "run_loop self dur st it (env # envs) =
               (LimitReached, n, (?xs @ cs) @ [Stderr (limit_message d)])" by simp
    from h(3) have c: "env # envs = (env # pre) @ e # post" by simp
    from h(1,2,5,6) a b c show ?thesis by blast
  next
    case timeout
    let ?xs = "[RunProbe (binary_path self), Stderr (timeout_message self)]"
    from Cons.prems timeout(4) have "fst (run_loop self dur st it envs) = LimitReached"
      by (simp add: and_then_parts)
    from Cons.IH [OF this] obtain d pre e post n cs where
      h: "dur = Some d" "d \<noteq> 0" "envs = pre @ e # post"
        "run_loop self dur st it pre = (StillRunning, n, cs)" "running e"
        "float_ge_int (float_sub (Fin (t_check e)) (Fin st)) d"
        "run_loop self dur st it envs = (LimitReached, n, cs @ [Stderr (limit_message d)])"
      by blast
    from timeout(1,2,3) h(4)
    have a: "run_loop self dur st it (env # pre) = (StillRunning, n, ?xs @ cs)" by simp
    from timeout(4) h(7)
    have b: "run_loop self dur st it (env # envs) =
               (LimitReached, n, (?xs @ cs) @ [Stderr (limit_message d)])" by simp
    from h(3) have c: "env # envs = (env # pre) @ e # post" by simp
    from h(1,2,5,6) a b c show ?thesis by blast
  qed (use Cons.prems in simp_all)
qed

lemma out_text_append: "out_text (xs @ ys) = out_text xs @ out_text ys"
  by (simp add: out_text_def)

lemma out_text_rows:
  "WriteCsvHeader \<notin> set cs \<Longrightarrow> out_text cs = out_text (filter is_row_call cs)"
proof (induction cs)
  case Nil
  then show ?case by simp
next
  case (Cons c cs)
  then have ih: "out_text cs = out_text (filter is_row_call cs)" by simp
  have split: "out_text (c # cs) = out_text [c] @ out_text cs"
    using out_text_append [of "[c]" cs] by simp
  from Cons.prems have "c \<noteq> WriteCsvHeader" by auto
  then show ?case
  proof (cases c)
    case (WriteCsvRow ts data)
    then show ?thesis
      using split ih out_text_append [of "[c]" "filter is_row_call cs"] by simp
  qed (use split ih in \<open>simp_all add: out_text_def\<close>)
qed

lemma run_calls:
  "\<exists>pre_calls post_calls.
     snd (run self d st envs) =
       pre_calls @ WriteCsvHeader # snd (snd (run_loop self d st 0 envs)) @ post_calls \<and>
     WriteCsvHeader \<notin> set pre_calls \<and> \<not> list_ex is_row_call pre_calls \<and>
     WriteCsvHeader \<notin> set post_calls \<and> \<not> list_ex is_row_call post_calls \<and>
     (fst (run_loop self d st 0 envs) \<noteq> StillRunning \<longrightarrow>
        post_calls \<noteq> [] \<and>
        last post_calls = Stderr (total_message (fst (snd (run_loop self d st 0 envs))))) \<and>
     fst (run self d st envs) = fst (run_loop self d st 0 envs)"
proof -
  obtain oc n cs where r: "run_loop self d st 0 envs = (oc, n, cs)" by (cases "run_loop self d st 0 envs")
  let ?pre_calls = "if opens_file self
             then [OpenOut (the (output_file self)),
                   Stderr (''Writing to '' @ the (output_file self) @ [newline])]
             else []"
  let ?post_calls = "if oc = StillRunning then []
             else (if opens_file self then [CloseOut] else [])
                  @ [Stderr (total_message n)]"
  have "snd (run self d st envs) = ?pre_calls @ WriteCsvHeader # cs @ ?post_calls"
    "fst (run self d st envs) = oc"
    by (simp_all add: run_def r Let_def)
  then show ?thesis unfolding r
    by (intro exI [of _ ?pre_calls] exI [of _ ?post_calls]) simp
qed

lemma run_total_reported:
  assumes "fst (run self d st envs) \<noteq> StillRunning"
  shows "last (snd (run self d st envs)) =
           Stderr (total_message (length (filter is_row_call (snd (run self d st envs)))))"
proof -
  from run_calls [of self d st envs] obtain pre_calls post_calls where
    cs: "snd (run self d st envs) =
       pre_calls @ WriteCsvHeader # snd (snd (run_loop self d st 0 envs)) @ post_calls"
    and o: "\<not> list_ex is_row_call pre_calls"
    and c: "\<not> list_ex is_row_call post_calls"
    and fin: "fst (run_loop self d st 0 envs) \<noteq> StillRunning \<longrightarrow>
        post_calls \<noteq> [] \<and>
        last post_calls = Stderr (total_message (fst (snd (run_loop self d st 0 envs))))"
    and oc: "fst (run self d st envs) = fst (run_loop self d st 0 envs)"
    by blast
  have nr: "filter is_row_call xs = []" if "\<not> list_ex is_row_call xs" for xs
    using that by (induction xs) auto
  from assms oc fin have ne: "post_calls \<noteq> []"
    and l: "last post_calls = Stderr (total_message (fst (snd (run_loop self d st 0 envs))))"
    by simp_all
  have "length (filter is_row_call (snd (run self d st envs))) =
      length (filter is_row_call (snd (snd (run_loop self d st 0 envs))))"
    unfolding cs by (simp add: nr [OF o] nr [OF c])
  also have "\<dots> = fst (snd (run_loop self d st 0 envs))"
    using run_loop_count [of self d st 0 envs] by simp
  finally have n: "length (filter is_row_call (snd (run self d st envs))) =
      fst (snd (run_loop self d st 0 envs))" .
  have "last (snd (run self d st envs)) = last post_calls"
    unfolding cs using ne by simp
  with l n show ?thesis by simp
qed

text \<open>The rounding on a few decimal numbers and on two ties.\<close>

lemma round_double_examples:
  "round_double (1 / 10) = Fin tenth"
  "round_double (3 / 10) = Fin (5404319552844595 / 2 ^ 54)"
  "round_double (121 / 10) = Fin (6811694436397875 / 2 ^ 49)"
  "round_double (1 / 4) = Fin (1 / 4)"
  "round_double (2 ^ 53 + 1) = Fin (2 ^ 53)"
  "round_double (- (2 ^ 53 + 3)) = Fin (- (2 ^ 53 + 4))"
  by code_simp+

lemma pow2_pos: "0 < pow2 e"
  by (simp add: pow2_def)




text \<open>
  The exponent is the right one, and a finite result is the multiple of the quantum
  nearest to the exact value.
\<close>

lemma pow2_powi: "pow2 e = 2 powi e"
  by (simp add: pow2_def power_int_def inverse_eq_divide power_one_over)

lemma pow2_add: "pow2 (a + b) = pow2 a * pow2 b"
  by (simp add: pow2_powi power_int_add)

lemma pow2_mono: "a \<le> b \<Longrightarrow> pow2 a \<le> pow2 b"
  by (simp add: pow2_powi power_int_increasing)

lemma bit_length_nonneg: "0 \<le> bit_length n"
proof (induction n rule: bit_length.induct)
  case (1 n)
  then show ?case by (cases "n \<le> 0") (simp_all add: bit_length.simps [of n])
qed

lemma bit_length_pos: "0 < n \<Longrightarrow> 1 \<le> bit_length n"
  using bit_length_nonneg [of "n div 2"] by (simp add: bit_length.simps [of n])

lemma bit_length_bounds:
  "0 < n \<Longrightarrow> 2 ^ nat (bit_length n - 1) \<le> n \<and> n < 2 ^ nat (bit_length n)"
proof (induction n rule: bit_length.induct)
  case (1 n)
  show ?case
  proof (cases "n = 1")
    case True
    then show ?thesis by (simp add: bit_length.simps [of 1] bit_length.simps [of 0])
  next
    case False
    with "1.prems" have h: "0 < n div 2" by simp
    from "1.prems" have nle: "\<not> n \<le> 0" by simp
    from "1.IH" [OF nle h] have ih: "2 ^ nat (bit_length (n div 2) - 1) \<le> n div 2"
      "n div 2 < 2 ^ nat (bit_length (n div 2))" by simp_all
    let ?k = "bit_length (n div 2)"
    have k: "1 \<le> ?k" using bit_length_pos [OF h] .
    have bl: "bit_length n = ?k + 1" using "1.prems" by (simp add: bit_length.simps [of n])
    have e1: "nat (?k + 1 - 1) = Suc (nat (?k - 1))" using k by simp
    have e2: "nat (?k + 1) = Suc (nat ?k)" using k by simp
    have "2 * (n div 2) \<le> n" "n < 2 * (n div 2) + 2" by presburger+
    with ih show ?thesis unfolding bl e1 e2 by simp
  qed
qed

lemma bit_length_bounds_rat:
  assumes "0 < n"
  shows "pow2 (bit_length n - 1) \<le> of_int n" "of_int n < pow2 (bit_length n)"
proof -
  from bit_length_pos [OF assms] have k: "0 \<le> bit_length n - 1" "0 \<le> bit_length n" by simp_all
  from bit_length_bounds [OF assms]
  have a: "2 ^ nat (bit_length n - 1) \<le> n" and b: "n < 2 ^ nat (bit_length n)" by simp_all
  from a have "(of_int (2 ^ nat (bit_length n - 1)) :: rat) \<le> of_int n"
    by (simp only: of_int_le_iff)
  then show "pow2 (bit_length n - 1) \<le> of_int n" using k by (simp add: pow2_def)
  from b have "(of_int n :: rat) < of_int (2 ^ nat (bit_length n))"
    by (simp only: of_int_less_iff)
  then show "of_int n < pow2 (bit_length n)" using k by (simp add: pow2_def)
qed

lemma ilog2_bounds:
  assumes "0 < x"
  shows "pow2 (ilog2 x) \<le> x \<and> x < pow2 (ilog2 x + 1)"
proof -
  obtain n d where q: "quotient_of x = (n, d)" by (cases "quotient_of x")
  have d: "0 < d" using q by (rule quotient_of_denom_pos)
  have x: "x = of_int n / of_int d" using q by (rule quotient_of_div)
  from assms d have n: "0 < n" by (simp add: x zero_less_divide_iff)
  let ?a = "bit_length n" and ?b = "bit_length d"
  note nb = bit_length_bounds_rat [OF n]
  note db = bit_length_bounds_rat [OF d]
  have dpos: "(0::rat) < of_int d" using d by simp
  have up: "x < pow2 (?a - ?b + 1)"
  proof -
    have "of_int n < pow2 ?a" by (rule nb)
    also have "pow2 ?a = pow2 (?a - ?b + 1) * pow2 (?b - 1)" by (simp add: pow2_add [symmetric])
    also have "\<dots> \<le> pow2 (?a - ?b + 1) * of_int d"
      using db(1) pow2_pos [of "?a - ?b + 1"] by simp
    finally show ?thesis using dpos by (simp add: x pos_divide_less_eq)
  qed
  have low: "pow2 (?a - ?b - 1) < x"
  proof -
    have "pow2 (?a - ?b - 1) * of_int d < pow2 (?a - ?b - 1) * pow2 ?b"
      using db(2) pow2_pos [of "?a - ?b - 1"] by simp
    also have "\<dots> = pow2 (?a - 1)" by (simp add: pow2_add [symmetric])
    also have "\<dots> \<le> of_int n" by (rule nb)
    finally show ?thesis using dpos by (simp add: x pos_less_divide_eq)
  qed
  show ?thesis
  proof (cases "pow2 (?a - ?b) \<le> x")
    case True
    then have "ilog2 x = ?a - ?b" by (simp add: ilog2_def q)
    with True up show ?thesis by simp
  next
    case False
    then have "ilog2 x = ?a - ?b - 1" by (simp add: ilog2_def q)
    with False low show ?thesis by simp
  qed
qed

lemma round_half_even_near: "\<bar>of_int (round_half_even x) - x\<bar> \<le> 1 / 2"
proof -
  have "of_int \<lfloor>x\<rfloor> \<le> x" "x < of_int \<lfloor>x\<rfloor> + 1" by linarith+
  then show ?thesis by (auto simp: round_half_even_def Let_def abs_le_iff)
qed

lemma round_double_near:
  assumes "round_double x = Fin r" and "x \<noteq> 0"
  shows "\<exists>m. r = of_int m * pow2 (max (ilog2 \<bar>x\<bar> - 52) (- 1074)) \<and>
           \<bar>r - x\<bar> \<le> pow2 (max (ilog2 \<bar>x\<bar> - 52) (- 1074)) / 2"
proof -
  define p where "p = max (ilog2 \<bar>x\<bar> - 52) (- 1074)"
  define m where "m = round_half_even (\<bar>x\<bar> / pow2 p)"
  have pp: "0 < pow2 p" by (rule pow2_pos)
  have "\<bar>of_int m - \<bar>x\<bar> / pow2 p\<bar> \<le> 1 / 2" unfolding m_def by (rule round_half_even_near)
  then have "\<bar>of_int m - \<bar>x\<bar> / pow2 p\<bar> * pow2 p \<le> 1 / 2 * pow2 p"
    using pp by (simp only: mult_le_cancel_right_pos)
  moreover have "\<bar>of_int m - \<bar>x\<bar> / pow2 p\<bar> * pow2 p = \<bar>of_int m * pow2 p - \<bar>x\<bar>\<bar>"
  proof -
    have "of_int m * pow2 p - \<bar>x\<bar> = (of_int m - \<bar>x\<bar> / pow2 p) * pow2 p"
      using pp by (simp add: left_diff_distrib)
    then have "\<bar>of_int m * pow2 p - \<bar>x\<bar>\<bar> = \<bar>of_int m - \<bar>x\<bar> / pow2 p\<bar> * \<bar>pow2 p\<bar>"
      by (simp only: abs_mult)
    with pp show ?thesis by simp
  qed
  ultimately have near: "\<bar>of_int m * pow2 p - \<bar>x\<bar>\<bar> \<le> pow2 p / 2" by simp
  have rd: "round_double x =
      (if 1024 < bit_length m + p then (if x < 0 then NInf else PInf)
       else Fin (if x < 0 then - (of_int m * pow2 p) else of_int m * pow2 p))"
    unfolding round_double_def Let_def p_def m_def using assms(2) by (simp only: if_False)
  show ?thesis
  proof (cases "x < 0")
    case True
    with rd assms(1) have r: "r = of_int (- m) * pow2 p" by (simp split: if_splits)
    have "\<bar>- (of_int m * pow2 p) - x\<bar> = \<bar>of_int m * pow2 p + x\<bar>"
      by (simp only: abs_minus_commute [of "- (of_int m * pow2 p)" x] diff_minus_eq_add add.commute)
    with near True have "\<bar>r - x\<bar> \<le> pow2 p / 2" unfolding r by simp
    with r show ?thesis unfolding p_def by blast
  next
    case False
    with rd assms(1) have r: "r = of_int m * pow2 p" by (simp split: if_splits)
    from near False have "\<bar>r - x\<bar> \<le> pow2 p / 2" unfolding r by simp
    with r show ?thesis unfolding p_def by blast
  qed
qed





lemma duration_zero_never_reached:
  "\<not> duration_reached (Some 0) st now" "\<not> duration_reached None st now"
  by (simp_all add: duration_reached_def)

lemma run_loop_zero:
  "run_loop self (Some 0) st it envs = run_loop self None st it envs"
proof (induction envs arbitrary: it)
  case Nil
  then show ?case by simp
next
  case (Cons env envs)
  then show ?case
    by (simp add: duration_zero_never_reached split: probe_result.splits sum.splits)
qed

lemma run_loop_unbounded_outcome:
  "fst (run_loop self None st it envs) \<in> {Cancelled, ProbeFailed, BinaryMissing, StillRunning}"
proof (induction envs arbitrary: it)
  case Nil
  then show ?case by simp
next
  case (Cons env envs)
  show ?case
    by (cases rule: run_loop_cases [of env self None st it envs])
       (use Cons.IH in \<open>simp_all add: and_then_parts\<close>)
qed

lemma run_loop_goes_on:
  "list_all tick_goes_on envs \<Longrightarrow> fst (run_loop self None st it envs) = StillRunning"
proof (induction envs arbitrary: it)
  case Nil
  then show ?case by simp
next
  case (Cons env envs)
  then have g: "tick_goes_on env" and rest: "list_all tick_goes_on envs" by simp_all
  show ?case
    by (cases rule: run_loop_cases [of env self None st it envs])
       (use g Cons.IH [OF rest] in \<open>simp_all add: and_then_parts tick_goes_on_def\<close>)
qed

section \<open>The claims about the parser\<close>

text \<open>
  C1, as the code has it. A line of the table (after the header line) that is itself neither
  a header nor a separator line, whose tokens match the data-row grammar with value
  boundary \<open>k\<close> and whose last token is \<open>OK\<close>, adds exactly one reading between the
  readings of the lines before it and those of the lines after it, provided it has at least
  five tokens: its id is token 0, its name the tokens between the id and the value joined
  with an underscore, its value token \<open>k\<close> as written, its unit the token after the value if
  there is one and empty otherwise. The test \<open>len(parts) >= 5\<close> is explicit in the code:
  a row with fewer than five tokens adds no reading.
\<close>

theorem data_row_reading:
  assumes "py_lines output = pre @ line # post"
    and "list_ex is_header pre"
    and "\<not> is_header line" and "\<not> is_separator line"
    and "data_row (py_split line) k"
    and "last (py_split line) = ''OK''"
  shows "\<exists>s before after.
           parse_output output = Inr s \<and>
           table_loop False [] pre = Inr before \<and>
           table_loop True [] post = Inr after \<and>
           metrics s = before @
             (if 5 \<le> length (py_split line) then [reading_at (py_split line) k] else [])
             @ after"
proof -
  obtain s where s: "parse_output output = Inr s" using parse_output_total by blast
  obtain before where b: "table_loop False [] pre = Inr before"
    using table_loop_total by blast
  obtain after where a: "table_loop True [] post = Inr after"
    using table_loop_total by blast
  let ?new = "if 5 \<le> length (py_split line) then [reading_at (py_split line) k] else []"
  have step: "table_loop True before (line # post) = table_loop True (before @ ?new) post"
  proof (cases "5 \<le> length (py_split line)")
    case True
    with table_loop_row [OF assms(3,4) True assms(5,6)] show ?thesis by simp
  next
    case False
    then have "length (py_split line) < 5" by simp
    with False show ?thesis using table_loop_skip [of line True before post] by simp
  qed
  have "table_loop False [] (pre @ line # post) = table_loop True before (line # post)"
    using table_loop_append [OF b, of "line # post"] assms(2) by simp
  also have "\<dots> = table_loop True (before @ ?new) post" by (rule step)
  also have "\<dots> = Inr ((before @ ?new) @ after)" by (rule table_loop_from_empty [OF a])
  finally have "metrics s = before @ ?new @ after"
    using parse_output_metrics [OF s] assms(1) by simp
  with s b a show ?thesis by blast
qed

text \<open>A four-token row that matches the grammar, inside the table, gives no reading.\<close>

theorem four_token_row_dropped:
  "py_lines short_row_report = [''ID Name Value Unit Status'', ''3 Power 42.5 OK''] \<and>
   py_split ''3 Power 42.5 OK'' = [''3'', ''Power'', ''42.5'', ''OK''] \<and>
   data_row [''3'', ''Power'', ''42.5'', ''OK''] 2 \<and>
   parse_output short_row_report =
     Inr \<lparr>device_id = ''0'', device_name = ''Unknown'', gpu_instance_id = [],
          compute_instance_id = [], metrics = []\<rparr>"
  by code_simp

theorem data_row_reading_witness:
  "\<exists>s. parse_output power_report = Inr s \<and>
     metrics s = [\<lparr>m_id = ''3'', m_name = ''Power_Usage'', m_value = ''42.5'', m_unit = ''W''\<rparr>]"
proof -
  let ?pre = "[''GPU 0: NVIDIA A100'', ''ID Name Value Unit Status'', ''-------------------------'']"
  let ?line = "''3 Power Usage 42.5 W OK''"
  have h1: "py_lines power_report = ?pre @ ?line # []" by code_simp
  have h2: "list_ex is_header ?pre" by code_simp
  have h3: "\<not> is_header ?line" by code_simp
  have h4: "\<not> is_separator ?line" by code_simp
  have h5: "data_row (py_split ?line) 3" by code_simp
  have h6: "last (py_split ?line) = ''OK''" by code_simp
  have e1: "table_loop False [] ?pre = Inr []" by code_simp
  have e2: "(if 5 \<le> length (py_split ?line) then [reading_at (py_split ?line) 3] else []) =
     [\<lparr>m_id = ''3'', m_name = ''Power_Usage'', m_value = ''42.5'', m_unit = ''W''\<rparr>]"
    by code_simp
  from data_row_reading [OF h1 h2 h3 h4 h5 h6] show ?thesis
    unfolding e1 e2 by auto
qed

text \<open>
  C2, as the code has it. The first loop assigns the identity variables at every matching
  line and never stops early, so the last matching line of each kind is the one the Sample
  carries, not the first: the device fields are those of the last line that matches
  \<open>GPU <int>: <rest>\<close> (the defaults when there is none), the partition fields those of
  the last line with \<open>MIG Slice\<close> and \<open>GI: <int>, CI: <int>\<close> that does not start with
  \<open>GPU\<close> and a blank (empty when there is none).
\<close>

theorem last_identity_line_wins:
  "\<exists>s. parse_output output = Inr s \<and>
     (device_id s, device_name s) =
       (case List.map_filter re_match_gpu (py_lines output) of
          [] \<Rightarrow> (''0'', ''Unknown'') | d # ds \<Rightarrow> last (d # ds)) \<and>
     (gpu_instance_id s, compute_instance_id s) =
       (case List.map_filter partition_match (py_lines output) of
          [] \<Rightarrow> ([], []) | p # ps \<Rightarrow> last (p # ps))"
proof -
  obtain s where s: "parse_output output = Inr s" using parse_output_total by blast
  let ?ls = "py_lines output"
  let ?st = "device_loop no_ident ?ls"
  from s have f: "device_id s = py_or (i_device_id ?st) ''0''"
    "device_name s = py_or (i_device_name ?st) ''Unknown''"
    "gpu_instance_id s = py_or (i_gpu_instance_id ?st) []"
    "compute_instance_id s = py_or (i_compute_instance_id ?st) []"
    by (auto simp: parse_output_def Let_def split: sum.splits)
  have dev: "(device_id s, device_name s) =
       (case List.map_filter re_match_gpu ?ls of
          [] \<Rightarrow> (''0'', ''Unknown'') | d # ds \<Rightarrow> last (d # ds))"
  proof (cases "List.map_filter re_match_gpu ?ls")
    case Nil
    with device_loop_device [of no_ident ?ls] show ?thesis
      by (simp add: f no_ident_def py_or_def)
  next
    case (Cons d ds)
    from map_filter_last_in [OF Cons] obtain l where "re_match_gpu l = Some (last (d # ds))"
      by blast
    then have "fst (last (d # ds)) \<noteq> []" "snd (last (d # ds)) \<noteq> []"
      using re_match_gpu_nonempty [of l "fst (last (d # ds))" "snd (last (d # ds))"] by simp_all
    with device_loop_device [of no_ident ?ls] Cons show ?thesis
      by (simp add: f py_or_def del: last.simps)
  qed
  have par: "(gpu_instance_id s, compute_instance_id s) =
       (case List.map_filter partition_match ?ls of
          [] \<Rightarrow> ([], []) | p # ps \<Rightarrow> last (p # ps))"
  proof (cases "List.map_filter partition_match ?ls")
    case Nil
    with device_loop_partition [of no_ident ?ls] show ?thesis
      by (simp add: f no_ident_def py_or_def)
  next
    case (Cons d ds)
    from map_filter_last_in [OF Cons] obtain l where "partition_match l = Some (last (d # ds))"
      by blast
    then have "fst (last (d # ds)) \<noteq> []" "snd (last (d # ds)) \<noteq> []"
      using partition_match_nonempty [of l "fst (last (d # ds))" "snd (last (d # ds))"] by simp_all
    with device_loop_partition [of no_ident ?ls] Cons show ?thesis
      by (simp add: f py_or_def del: last.simps)
  qed
  from s dev par show ?thesis by blast
qed

text \<open>The report \<open>two_identities\<close>: the Sample carries the second line of each kind.\<close>

theorem later_identity_line_overrides:
  "parse_output two_identities =
     Inr \<lparr>device_id = ''1'', device_name = ''Second'', gpu_instance_id = ''3'',
          compute_instance_id = ''4'', metrics = []\<rparr> \<and>
   hd (py_lines two_identities) = ''GPU 0: First'' \<and>
   re_match_gpu ''GPU 0: First'' = Some (''0'', ''First'') \<and>
   partition_match ''MIG Slice GI: 1, CI: 2'' = Some (''1'', ''2'')"
  by code_simp

theorem last_identity_line_wins_witness:
  "\<exists>s. parse_output two_identities = Inr s \<and>
     (device_id s, device_name s) = (''1'', ''Second'') \<and>
     (gpu_instance_id s, compute_instance_id s) = (''3'', ''4'')"
proof -
  have d: "List.map_filter re_match_gpu (py_lines two_identities) =
             [(''0'', ''First''), (''1'', ''Second'')]"
    by code_simp
  have p: "List.map_filter partition_match (py_lines two_identities) =
             [(''1'', ''2''), (''3'', ''4'')]"
    by code_simp
  from last_identity_line_wins [of two_identities] show ?thesis
    unfolding d p by simp
qed

text \<open>
  C3, as the code has it. \<open>parse_output\<close> returns a Sample for every input text: no read
  of the token list raises outside the \<open>try\<close>, and what raises inside is caught. And when
  three successive lines of the table are a healthy row of at least five tokens, a row
  that the code does not read (fewer than five tokens, a first token that \<open>isdigit\<close>
  refuses, or no token after the first that parses as a float) and another healthy row
  of at least five tokens, these three lines contribute exactly the two readings of the
  healthy rows, in that order. A row of fewer than five tokens gives no reading, healthy
  or not.
\<close>

theorem parse_total_and_resilient:
  "(\<exists>s. parse_output output = Inr s) \<and>
   (py_lines output = pre @ [g1, b, g2] @ post \<and> list_ex is_header pre \<and>
    \<not> is_header g1 \<and> \<not> is_separator g1 \<and> 5 \<le> length (py_split g1) \<and>
    data_row (py_split g1) k1 \<and> last (py_split g1) = ''OK'' \<and>
    (length (py_split b) < 5 \<or> \<not> py_isdigit (py_split b ! 0) \<or>
     \<not> list_ex py_float_ok (drop 1 (py_split b))) \<and>
    \<not> is_header g2 \<and> \<not> is_separator g2 \<and> 5 \<le> length (py_split g2) \<and>
    data_row (py_split g2) k2 \<and> last (py_split g2) = ''OK'' \<longrightarrow>
      (\<exists>s before after.
         parse_output output = Inr s \<and>
         table_loop False [] pre = Inr before \<and>
         table_loop True [] post = Inr after \<and>
         metrics s = before @ [reading_at (py_split g1) k1, reading_at (py_split g2) k2] @ after))"
proof (intro conjI impI)
  show "\<exists>s. parse_output output = Inr s" by (rule parse_output_total)
next
  assume a: "py_lines output = pre @ [g1, b, g2] @ post \<and> list_ex is_header pre \<and>
    \<not> is_header g1 \<and> \<not> is_separator g1 \<and> 5 \<le> length (py_split g1) \<and>
    data_row (py_split g1) k1 \<and> last (py_split g1) = ''OK'' \<and>
    (length (py_split b) < 5 \<or> \<not> py_isdigit (py_split b ! 0) \<or>
     \<not> list_ex py_float_ok (drop 1 (py_split b))) \<and>
    \<not> is_header g2 \<and> \<not> is_separator g2 \<and> 5 \<le> length (py_split g2) \<and>
    data_row (py_split g2) k2 \<and> last (py_split g2) = ''OK''"
  obtain s where s: "parse_output output = Inr s" using parse_output_total by blast
  obtain before where bf: "table_loop False [] pre = Inr before"
    using table_loop_total by blast
  obtain after where af: "table_loop True [] post = Inr after"
    using table_loop_total by blast
  let ?r1 = "reading_at (py_split g1) k1" and ?r2 = "reading_at (py_split g2) k2"
  from a have g1: "\<not> is_header g1" "\<not> is_separator g1" "5 \<le> length (py_split g1)"
      "data_row (py_split g1) k1" "last (py_split g1) = ''OK''"
    and g2: "\<not> is_header g2" "\<not> is_separator g2" "5 \<le> length (py_split g2)"
      "data_row (py_split g2) k2" "last (py_split g2) = ''OK''"
    by simp_all
  from a have br: "py_split b = [] \<or> last (py_split b) \<noteq> ''OK'' \<or> length (py_split b) < 5 \<or>
    \<not> py_isdigit (py_split b ! 0) \<or> \<not> list_ex py_float_ok (drop 1 (py_split b))"
    by blast
  have "table_loop False [] (pre @ [g1, b, g2] @ post) =
        table_loop True before (g1 # b # g2 # post)"
    using table_loop_append [OF bf, of "[g1, b, g2] @ post"] a by simp
  also have "\<dots> = table_loop True (before @ [?r1]) (b # g2 # post)"
    by (rule table_loop_row [OF g1])
  also have "\<dots> = table_loop True (before @ [?r1]) (g2 # post)"
    using table_loop_skip [OF br, of True] by simp
  also have "\<dots> = table_loop True ((before @ [?r1]) @ [?r2]) post"
    by (rule table_loop_row [OF g2])
  also have "\<dots> = Inr (((before @ [?r1]) @ [?r2]) @ after)"
    by (rule table_loop_from_empty [OF af])
  finally have "metrics s = before @ [?r1, ?r2] @ after"
    using parse_output_metrics [OF s] a by simp
  with s bf af show "\<exists>s before after.
         parse_output output = Inr s \<and>
         table_loop False [] pre = Inr before \<and>
         table_loop True [] post = Inr after \<and>
         metrics s = before @ [?r1, ?r2] @ after" by blast
qed

text \<open>
  Two rows that match the data-row grammar without a unit, with a row without a value
  between them: no reading at all, where the claim has two. And a row whose id is a
  superscript two, which is no unsigned integer, between two healthy rows: three
  readings.
\<close>

theorem unitless_rows_all_dropped:
  "py_lines unitless_rows_report =
     [''ID Name Value Unit Status'', ''1 Power 42.5 OK'', ''2 Memory n/a OK'', ''3 Temp 50 OK''] \<and>
   data_row (py_split ''1 Power 42.5 OK'') 2 \<and> last (py_split ''1 Power 42.5 OK'') = ''OK'' \<and>
   list_all (\<lambda>p. \<not> py_float_ok p) (drop 1 (py_split ''2 Memory n/a OK'')) \<and>
   data_row (py_split ''3 Temp 50 OK'') 2 \<and> last (py_split ''3 Temp 50 OK'') = ''OK'' \<and>
   parse_output unitless_rows_report =
     Inr \<lparr>device_id = ''0'', device_name = ''Unknown'', gpu_instance_id = [],
          compute_instance_id = [], metrics = []\<rparr> \<and>
   parse_output superscript_id_report =
     Inr \<lparr>device_id = ''0'', device_name = ''Unknown'', gpu_instance_id = [],
          compute_instance_id = [],
          metrics =
            [\<lparr>m_id = ''1'', m_name = ''SM_Util'', m_value = ''12.5'', m_unit = ''%''\<rparr>,
             \<lparr>m_id = [CHR 0xB2], m_name = ''Memory_Util'', m_value = ''7.5'', m_unit = ''%''\<rparr>,
             \<lparr>m_id = ''3'', m_name = ''Power_Usage'', m_value = ''42.5'', m_unit = ''W''\<rparr>]\<rparr>"
  by code_simp

text \<open>The report \<open>broken_row_report\<close>: two readings, in the order of the rows.\<close>

theorem parse_total_and_resilient_witness:
  "\<exists>s. parse_output broken_row_report = Inr s \<and>
     metrics s =
       [\<lparr>m_id = ''1'', m_name = ''SM_Util'', m_value = ''12.5'', m_unit = ''%''\<rparr>,
        \<lparr>m_id = ''3'', m_name = ''Power_Usage'', m_value = ''42.5'', m_unit = ''W''\<rparr>]"
proof -
  let ?pre = "[''ID Name Value Unit Status'']"
  let ?g1 = "''1 SM Util 12.5 % OK''" and ?b = "''2 Memory Util n/a % OK''"
  let ?g2 = "''3 Power Usage 42.5 W OK''"
  have h: "py_lines broken_row_report = ?pre @ [?g1, ?b, ?g2] @ [] \<and> list_ex is_header ?pre \<and>
    \<not> is_header ?g1 \<and> \<not> is_separator ?g1 \<and> 5 \<le> length (py_split ?g1) \<and>
    data_row (py_split ?g1) 3 \<and> last (py_split ?g1) = ''OK'' \<and>
    (length (py_split ?b) < 5 \<or> \<not> py_isdigit (py_split ?b ! 0) \<or>
     \<not> list_ex py_float_ok (drop 1 (py_split ?b))) \<and>
    \<not> is_header ?g2 \<and> \<not> is_separator ?g2 \<and> 5 \<le> length (py_split ?g2) \<and>
    data_row (py_split ?g2) 3 \<and> last (py_split ?g2) = ''OK''"
    by code_simp
  have e1: "table_loop False [] ?pre = Inr []" by code_simp
  have e2: "table_loop True [] [] = Inr []" by simp
  have e3: "reading_at (py_split ?g1) 3 =
      \<lparr>m_id = ''1'', m_name = ''SM_Util'', m_value = ''12.5'', m_unit = ''%''\<rparr>"
    by code_simp
  have e4: "reading_at (py_split ?g2) 3 =
      \<lparr>m_id = ''3'', m_name = ''Power_Usage'', m_value = ''42.5'', m_unit = ''W''\<rparr>"
    by code_simp
  from parse_total_and_resilient [of broken_row_report ?pre ?g1 ?b ?g2 "[]" 3 3] h
  show ?thesis unfolding e1 e2 e3 e4 by auto
qed

text \<open>
  C4. A line whose last whitespace-delimited token is not the literal \<open>OK\<close> (or that has
  no token at all) adds no reading: the loop goes on with the same list of metrics.
  Hence a report in which no line ends in \<open>OK\<close> gives an empty list of readings, and
  every reading of a parsed Sample is the reading of one of the report's lines whose last
  token is \<open>OK\<close>.
\<close>

theorem only_ok_rows_are_read:
  "(py_split line = [] \<or> last (py_split line) \<noteq> ''OK'' \<longrightarrow>
      table_loop b ms (line # rest) = table_loop (b \<or> is_header line) ms rest) \<and>
   (list_all (\<lambda>l. py_split l = [] \<or> last (py_split l) \<noteq> ''OK'') (py_lines output) \<longrightarrow>
      (\<exists>s. parse_output output = Inr s \<and> metrics s = [])) \<and>
   (parse_output output = Inr s \<and> m \<in> set (metrics s) \<longrightarrow>
      (\<exists>l\<in>set (py_lines output).
         last (py_split l) = ''OK'' \<and> parse_row (py_split l) = Inr (Some m)))"
proof (intro conjI impI)
  assume "py_split line = [] \<or> last (py_split line) \<noteq> ''OK''"
  then have "py_split line = [] \<or> last (py_split line) \<noteq> ''OK'' \<or>
    length (py_split line) < 5 \<or> \<not> py_isdigit (py_split line ! 0) \<or>
    \<not> list_ex py_float_ok (drop 1 (py_split line))"
    by blast
  then show "table_loop b ms (line # rest) = table_loop (b \<or> is_header line) ms rest"
    by (rule table_loop_skip)
next
  assume a: "list_all (\<lambda>l. py_split l = [] \<or> last (py_split l) \<noteq> ''OK'') (py_lines output)"
  obtain s' where s': "parse_output output = Inr s'" using parse_output_total by blast
  from parse_output_metrics [OF s'] table_loop_all_skipped [OF a, of False "[]"]
  have "metrics s' = []" by simp
  with s' show "\<exists>s. parse_output output = Inr s \<and> metrics s = []" by blast
next
  assume a: "parse_output output = Inr s \<and> m \<in> set (metrics s)"
  then have "table_loop False [] (py_lines output) = Inr (metrics s)"
    by (intro parse_output_metrics) simp
  from table_loop_members [OF this, of m] a
  obtain l where l: "l \<in> set (py_lines output)" "parse_row (py_split l) = Inr (Some m)"
    by auto
  from parse_row_SomeD [OF l(2)] have "last (py_split l) = ''OK''" by blast
  with l show "\<exists>l\<in>set (py_lines output).
         last (py_split l) = ''OK'' \<and> parse_row (py_split l) = Inr (Some m)" by blast
qed

text \<open>A row with status \<open>ERR\<close>, a table with no healthy row, and one with a single healthy row.\<close>

theorem only_ok_rows_are_read_witness:
  "table_loop True [] [''1 SM Util 12.5 % ERR''] = table_loop True [] [] \<and>
   (\<exists>s. parse_output unhealthy_report = Inr s \<and> metrics s = []) \<and>
   (\<exists>l\<in>set (py_lines mixed_report). last (py_split l) = ''OK'' \<and>
      parse_row (py_split l) =
        Inr (Some \<lparr>m_id = ''3'', m_name = ''Power_Usage'', m_value = ''42.5'', m_unit = ''W''\<rparr>))"
proof -
  let ?m = "\<lparr>m_id = ''3'', m_name = ''Power_Usage'', m_value = ''42.5'', m_unit = ''W''\<rparr>"
  let ?s = "\<lparr>device_id = ''0'', device_name = ''Unknown'', gpu_instance_id = [],
             compute_instance_id = [], metrics = [?m]\<rparr>"
  have h1: "py_split ''1 SM Util 12.5 % ERR'' = [] \<or> last (py_split ''1 SM Util 12.5 % ERR'') \<noteq> ''OK''"
    by code_simp
  have h1': "(True \<or> is_header ''1 SM Util 12.5 % ERR'') = True" by simp
  have h2: "list_all (\<lambda>l. py_split l = [] \<or> last (py_split l) \<noteq> ''OK'') (py_lines unhealthy_report)"
    by code_simp
  have h3: "parse_output mixed_report = Inr ?s \<and> ?m \<in> set (metrics ?s)"
    by code_simp
  note t = only_ok_rows_are_read [of "''1 SM Util 12.5 % ERR''" True "[]" "[]" unhealthy_report]
  note t' = only_ok_rows_are_read [of "[]" True "[]" "[]" mixed_report ?s ?m]
  from t h1 have c1: "table_loop True [] [''1 SM Util 12.5 % ERR''] = table_loop True [] []"
    unfolding h1' by blast
  from t h2 have c2: "\<exists>s. parse_output unhealthy_report = Inr s \<and> metrics s = []" by blast
  from t' h3 have c3: "\<exists>l\<in>set (py_lines mixed_report). last (py_split l) = ''OK'' \<and>
      parse_row (py_split l) = Inr (Some ?m)" by blast
  from c1 c2 c3 show ?thesis by blast
qed

text \<open>
  C5. When no line of the report matches \<open>GPU <int>: <rest>\<close>, the Sample is returned all
  the same, with device id \<open>0\<close> and device name \<open>Unknown\<close>; when moreover no line gives
  a partition match, both partition identifiers are empty.
\<close>

theorem identity_defaults:
  assumes "list_all (\<lambda>l. re_match_gpu l = None) (py_lines output)"
  shows "\<exists>s. parse_output output = Inr s \<and> device_id s = ''0'' \<and> device_name s = ''Unknown'' \<and>
           (list_all (\<lambda>l. partition_match l = None) (py_lines output) \<longrightarrow>
              gpu_instance_id s = [] \<and> compute_instance_id s = [])"
proof -
  obtain s where s: "parse_output output = Inr s" using parse_output_total by blast
  let ?st = "device_loop no_ident (py_lines output)"
  from s have f: "device_id s = py_or (i_device_id ?st) ''0''"
    "device_name s = py_or (i_device_name ?st) ''Unknown''"
    "gpu_instance_id s = py_or (i_gpu_instance_id ?st) []"
    "compute_instance_id s = py_or (i_compute_instance_id ?st) []"
    by (auto simp: parse_output_def Let_def split: sum.splits)
  from device_loop_device [of no_ident "py_lines output"] map_filter_all_None [OF assms]
  have "i_device_id ?st = None" "i_device_name ?st = None" by (simp_all add: no_ident_def)
  then have dev: "device_id s = ''0''" "device_name s = ''Unknown''"
    by (simp_all add: f py_or_def)
  have par: "gpu_instance_id s = [] \<and> compute_instance_id s = []"
    if "list_all (\<lambda>l. partition_match l = None) (py_lines output)"
  proof -
    from device_loop_partition [of no_ident "py_lines output"] map_filter_all_None [OF that]
    have "i_gpu_instance_id ?st = None" "i_compute_instance_id ?st = None"
      by (simp_all add: no_ident_def)
    then show ?thesis by (simp add: f py_or_def)
  qed
  from s dev par show ?thesis by blast
qed

text \<open>A report with a table and no device or partition line.\<close>

theorem identity_defaults_witness:
  "\<exists>s. parse_output mixed_report = Inr s \<and> device_id s = ''0'' \<and> device_name s = ''Unknown'' \<and>
        gpu_instance_id s = [] \<and> compute_instance_id s = [] \<and>
        metrics s =
          [\<lparr>m_id = ''3'', m_name = ''Power_Usage'', m_value = ''42.5'', m_unit = ''W''\<rparr>]"
proof -
  have h: "list_all (\<lambda>l. re_match_gpu l = None) (py_lines mixed_report)" by code_simp
  have p: "list_all (\<lambda>l. partition_match l = None) (py_lines mixed_report)" by code_simp
  have t: "table_loop False [] (py_lines mixed_report) =
      Inr [\<lparr>m_id = ''3'', m_name = ''Power_Usage'', m_value = ''42.5'', m_unit = ''W''\<rparr>]"
    by code_simp
  from identity_defaults [OF h] obtain s where s: "parse_output mixed_report = Inr s"
    "device_id s = ''0''" "device_name s = ''Unknown''"
    "list_all (\<lambda>l. partition_match l = None) (py_lines mixed_report) \<longrightarrow>
       gpu_instance_id s = [] \<and> compute_instance_id s = []"
    by blast
  from parse_output_metrics [OF s(1)] t have "metrics s =
      [\<lparr>m_id = ''3'', m_name = ''Power_Usage'', m_value = ''42.5'', m_unit = ''W''\<rparr>]"
    by simp
  with s p show ?thesis by blast
qed

section \<open>The claims about the controller\<close>

text \<open>
  C6. In the trace of every run, whatever the passes and their outcomes, the call that
  writes the CSV header occurs exactly once, no call that writes data rows comes before
  it, and the text written to the sink is the header followed by the text of the data
  rows and nothing else.
\<close>

theorem header_written_once:
  "length (filter (\<lambda>c. c = WriteCsvHeader) (snd (run self d st envs))) = 1 \<and>
   (\<exists>before after. snd (run self d st envs) = before @ WriteCsvHeader # after \<and>
      \<not> list_ex is_row_call before \<and> WriteCsvHeader \<notin> set after) \<and>
   out_text (snd (run self d st envs)) =
     out_text [WriteCsvHeader] @ out_text (filter is_row_call (snd (run self d st envs)))"
proof -
  from run_calls [of self d st envs] obtain pre_calls post_calls where
    cs: "snd (run self d st envs) =
       pre_calls @ WriteCsvHeader # snd (snd (run_loop self d st 0 envs)) @ post_calls"
    and o: "WriteCsvHeader \<notin> set pre_calls" "\<not> list_ex is_row_call pre_calls"
    and c: "WriteCsvHeader \<notin> set post_calls" "\<not> list_ex is_row_call post_calls"
    by blast
  let ?loop = "snd (snd (run_loop self d st 0 envs))"
  have l: "WriteCsvHeader \<notin> set ?loop" by (rule run_loop_no_header)
  have f: "filter (\<lambda>c. c = WriteCsvHeader) xs = []" if "WriteCsvHeader \<notin> set xs" for xs
    using that by (induction xs) auto
  have one: "length (filter (\<lambda>c. c = WriteCsvHeader) (snd (run self d st envs))) = 1"
    unfolding cs by (simp add: f [OF o(1)] f [OF l] f [OF c(1)])
  have pos: "\<exists>before after. snd (run self d st envs) = before @ WriteCsvHeader # after \<and>
      \<not> list_ex is_row_call before \<and> WriteCsvHeader \<notin> set after"
    using cs o(2) l c(1) by (intro exI [of _ pre_calls] exI [of _ "?loop @ post_calls"]) simp
  have nr: "filter is_row_call xs = []" if "\<not> list_ex is_row_call xs" for xs
    using that by (induction xs) auto
  have "out_text (snd (run self d st envs)) =
      out_text pre_calls @ out_text [WriteCsvHeader] @ out_text ?loop @ out_text post_calls"
    unfolding cs using out_text_append [of "[WriteCsvHeader]" "?loop @ post_calls"]
    by (simp add: out_text_append)
  also have "out_text pre_calls = []"
    using out_text_rows [OF o(1)] nr [OF o(2)] by (simp add: out_text_def)
  also have "out_text post_calls = []"
    using out_text_rows [OF c(1)] nr [OF c(2)] by (simp add: out_text_def)
  also have "out_text ?loop = out_text (filter is_row_call ?loop)"
    by (rule out_text_rows [OF l])
  finally have same: "out_text (snd (run self d st envs)) =
     out_text [WriteCsvHeader] @ out_text (filter is_row_call (snd (run self d st envs)))"
    unfolding cs by (simp add: nr [OF o(2)] nr [OF c(2)])
  from one pos same show ?thesis by blast
qed

text \<open>The demonstration run: one header, then the one data row of its two Samples.\<close>

theorem header_written_once_witness:
  "length (filter (\<lambda>c. c = WriteCsvHeader)
     (snd (run demo_monitor None 0 [quick_tick, timeout_tick, slow_tick, missing_tick]))) = 1 \<and>
   out_text (snd (run demo_monitor None 0 [quick_tick, timeout_tick, slow_tick, missing_tick])) =
     ''timestamp,device_id,device_name,gpu_instance_id,compute_instance_id,metric_id,metric_name,value,unit''
     @ [newline] @ ''2024-01-01T00:00:00,0,Unknown,,,3,Power_Usage,42.5,W'' @ [newline]"
proof -
  let ?cs = "snd (run demo_monitor None 0 [quick_tick, timeout_tick, slow_tick, missing_tick])"
  have e: "out_text [WriteCsvHeader] @ out_text (filter is_row_call ?cs) =
     ''timestamp,device_id,device_name,gpu_instance_id,compute_instance_id,metric_id,metric_name,value,unit''
     @ [newline] @ ''2024-01-01T00:00:00,0,Unknown,,,3,Power_Usage,42.5,W'' @ [newline]"
    by code_simp
  from header_written_once [of demo_monitor None 0
      "[quick_tick, timeout_tick, slow_tick, missing_tick]"]
  show ?thesis unfolding e by blast
qed

text \<open>
  C7. A pass whose probe times out makes the two calls of the attempt (the probe, the
  warning) and the loop goes on with the next pass and the same count: no Sample, no row,
  no sleep. A pass whose probe binary is missing, or whose probe exits with a non-zero
  code, ends the loop. And whenever a run has ended, by the duration limit, by
  cancellation or by a failure, its last call reports the total, which is the number of
  Samples written.
\<close>

theorem failure_policy_and_total:
  "(running env \<and> \<not> duration_reached d st (t_check env) \<and> probe env = TimeoutExpired \<longrightarrow>
      run_loop self d st it (env # envs) =
        and_then [RunProbe (binary_path self), Stderr (timeout_message self)]
                 (run_loop self d st it envs)) \<and>
   (running env \<and> \<not> duration_reached d st (t_check env) \<and> probe env = FileNotFound \<longrightarrow>
      run_loop self d st it (env # envs) =
        (BinaryMissing, it, [RunProbe (binary_path self), Stderr (not_found_message self)])) \<and>
   (running env \<and> \<not> duration_reached d st (t_check env) \<and>
    probe env = Completed rc out err \<and> rc \<noteq> 0 \<longrightarrow>
      run_loop self d st it (env # envs) =
        (ProbeFailed, it, [RunProbe (binary_path self), Stderr (error_message self err)])) \<and>
   (fst (run self d st envs) \<noteq> StillRunning \<longrightarrow>
      last (snd (run self d st envs)) =
        Stderr (total_message (length (filter is_row_call (snd (run self d st envs))))))"
proof (intro conjI impI)
  assume "fst (run self d st envs) \<noteq> StillRunning"
  then show "last (snd (run self d st envs)) =
        Stderr (total_message (length (filter is_row_call (snd (run self d st envs)))))"
    by (rule run_total_reported)
qed simp_all

text \<open>
  A timeout, a missing binary and a failing probe in the middle of a run, and the last call
  of a run that ends by a missing binary, by the duration limit and by cancellation.
\<close>

theorem failure_policy_and_total_witness:
  "run_loop demo_monitor None 0 1 [timeout_tick, slow_tick] =
     and_then [RunProbe ''./gpm_metrics_reader'', Stderr (timeout_message demo_monitor)]
              (run_loop demo_monitor None 0 1 [slow_tick]) \<and>
   run_loop demo_monitor None 0 2 [missing_tick, slow_tick] =
     (BinaryMissing, 2,
      [RunProbe ''./gpm_metrics_reader'', Stderr (not_found_message demo_monitor)]) \<and>
   run_loop demo_monitor None 0 2 [failing_tick, slow_tick] =
     (ProbeFailed, 2,
      [RunProbe ''./gpm_metrics_reader'', Stderr (error_message demo_monitor ''no device'')]) \<and>
   last (snd (run demo_monitor None 0 [quick_tick, timeout_tick, slow_tick, missing_tick])) =
     Stderr ([newline, newline] @ ''Total samples collected: 2'' @ [newline]) \<and>
   last (snd (run demo_monitor (Some 12) 0 [quick_tick, timeout_tick, slow_tick, missing_tick])) =
     Stderr ([newline, newline] @ ''Total samples collected: 2'' @ [newline]) \<and>
   last (snd (run demo_monitor None 0 [quick_tick, cancelled_tick])) =
     Stderr ([newline, newline] @ ''Total samples collected: 1'' @ [newline])"
proof -
  have bp: "binary_path demo_monitor = ''./gpm_metrics_reader''" by (simp add: demo_monitor_def)
  have h1: "running timeout_tick \<and> \<not> duration_reached None 0 (t_check timeout_tick) \<and>
      probe timeout_tick = TimeoutExpired" by code_simp
  have h2: "running missing_tick \<and> \<not> duration_reached None 0 (t_check missing_tick) \<and>
      probe missing_tick = FileNotFound" by code_simp
  have h3: "running failing_tick \<and> \<not> duration_reached None 0 (t_check failing_tick) \<and>
      probe failing_tick = Completed 1 [] ''no device'' \<and> (1::int) \<noteq> 0" by code_simp
  let ?a = "[quick_tick, timeout_tick, slow_tick, missing_tick]"
  let ?b = "[quick_tick, cancelled_tick]"
  have h4: "fst (run demo_monitor None 0 ?a) \<noteq> StillRunning" by code_simp
  have h5: "fst (run demo_monitor (Some 12) 0 ?a) \<noteq> StillRunning" by code_simp
  have h6: "fst (run demo_monitor None 0 ?b) \<noteq> StillRunning" by code_simp
  have e4: "total_message (length (filter is_row_call (snd (run demo_monitor None 0 ?a)))) =
      [newline, newline] @ ''Total samples collected: 2'' @ [newline]" by code_simp
  have e5: "total_message (length (filter is_row_call (snd (run demo_monitor (Some 12) 0 ?a)))) =
      [newline, newline] @ ''Total samples collected: 2'' @ [newline]" by code_simp
  have e6: "total_message (length (filter is_row_call (snd (run demo_monitor None 0 ?b)))) =
      [newline, newline] @ ''Total samples collected: 1'' @ [newline]" by code_simp
  note t = failure_policy_and_total
  from t [of timeout_tick None 0 demo_monitor 1 "[slow_tick]"] h1
  have c1: "run_loop demo_monitor None 0 1 [timeout_tick, slow_tick] =
     and_then [RunProbe ''./gpm_metrics_reader'', Stderr (timeout_message demo_monitor)]
              (run_loop demo_monitor None 0 1 [slow_tick])" unfolding bp by blast
  from t [of missing_tick None 0 demo_monitor 2 "[slow_tick]"] h2
  have c2: "run_loop demo_monitor None 0 2 [missing_tick, slow_tick] =
     (BinaryMissing, 2,
      [RunProbe ''./gpm_metrics_reader'', Stderr (not_found_message demo_monitor)])"
    unfolding bp by blast
  from t [of failing_tick None 0 demo_monitor 2 "[slow_tick]" 1 "[]" "''no device''"] h3
  have c3: "run_loop demo_monitor None 0 2 [failing_tick, slow_tick] =
     (ProbeFailed, 2,
      [RunProbe ''./gpm_metrics_reader'', Stderr (error_message demo_monitor ''no device'')])"
    unfolding bp by blast
  from t [of _ None 0 demo_monitor _ ?a] h4
  have c4: "last (snd (run demo_monitor None 0 ?a)) =
     Stderr ([newline, newline] @ ''Total samples collected: 2'' @ [newline])"
    unfolding e4 by blast
  from t [of _ "Some 12" 0 demo_monitor _ ?a] h5
  have c5: "last (snd (run demo_monitor (Some 12) 0 ?a)) =
     Stderr ([newline, newline] @ ''Total samples collected: 2'' @ [newline])"
    unfolding e5 by blast
  from t [of _ None 0 demo_monitor _ ?b] h6
  have c6: "last (snd (run demo_monitor None 0 ?b)) =
     Stderr ([newline, newline] @ ''Total samples collected: 1'' @ [newline])"
    unfolding e6 by blast
  from c1 c2 c3 c4 c5 c6 show ?thesis by blast
qed

text \<open>
  C8, as the code has it. The duration limit is checked at the top of every pass, before
  the probe is run, when the configured duration is not 0: when the passes so far have all
  gone through and the check of the next pass, \<open>(time.time() - start_time) >= duration_sec\<close>
  in doubles, holds, the loop stops there with the count and the calls of those passes
  and the limit message, whatever that pass's probe would have given; no probe is run and
  nothing is written. Conversely, a loop left by the limit was left in exactly this way,
  at the top of a pass. A duration of 0 is never checked: passes start however much time
  has elapsed.
\<close>

theorem duration_checked_first:
  "(run_loop self (Some d) st it pre = (StillRunning, n, cs) \<and> running env \<and> d \<noteq> 0 \<and>
    float_ge_int (float_sub (Fin (t_check env)) (Fin st)) d \<longrightarrow>
      run_loop self (Some d) st it (pre @ env # post) =
        (LimitReached, n, cs @ [Stderr (limit_message d)])) \<and>
   (fst (run_loop self dur st it envs) = LimitReached \<longrightarrow>
      (\<exists>d pre env post n cs. dur = Some d \<and> d \<noteq> 0 \<and> envs = pre @ env # post \<and>
         run_loop self dur st it pre = (StillRunning, n, cs) \<and> running env \<and>
         float_ge_int (float_sub (Fin (t_check env)) (Fin st)) d \<and>
         run_loop self dur st it envs = (LimitReached, n, cs @ [Stderr (limit_message d)])))"
proof (intro conjI impI)
  assume a: "run_loop self (Some d) st it pre = (StillRunning, n, cs) \<and> running env \<and> d \<noteq> 0 \<and>
    float_ge_int (float_sub (Fin (t_check env)) (Fin st)) d"
  then have "duration_reached (Some d) st (t_check env)" by (simp add: duration_reached_def)
  with a have "run_loop self (Some d) st n (env # post) =
      (LimitReached, n, [Stderr (limit_message d)])" by simp
  with a run_loop_append [of self "Some d" st it pre n cs "env # post"]
  show "run_loop self (Some d) st it (pre @ env # post) =
        (LimitReached, n, cs @ [Stderr (limit_message d)])" by simp
next
  assume "fst (run_loop self dur st it envs) = LimitReached"
  then show "\<exists>d pre env post n cs. dur = Some d \<and> d \<noteq> 0 \<and> envs = pre @ env # post \<and>
         run_loop self dur st it pre = (StillRunning, n, cs) \<and> running env \<and>
         float_ge_int (float_sub (Fin (t_check env)) (Fin st)) d \<and>
         run_loop self dur st it envs = (LimitReached, n, cs @ [Stderr (limit_message d)])"
    by (rule run_loop_limit_split)
qed

text \<open>
  A duration of 0 seconds: twelve and a half seconds after the start the pass begins all
  the same and the probe is run.
\<close>

theorem zero_duration_pass_starts:
  "float_ge_int (float_sub (Fin (t_check missing_tick)) (Fin 0)) 0 \<and>
   run_loop demo_monitor (Some 0) 0 0 [missing_tick] =
     (BinaryMissing, 0,
      [RunProbe ''./gpm_metrics_reader'', Stderr (not_found_message demo_monitor)])"
  by code_simp

text \<open>
  Two passes and a timeout in twelve seconds; the fourth pass finds the limit reached.
  And a run started at 0.1 with a limit of 12 seconds stops at a check that reads 12.1:
  the difference of the two doubles is below 12, the rounded difference is 12.
\<close>

theorem duration_checked_first_witness:
  "run_loop demo_monitor (Some 12) 0 0
     ([quick_tick, timeout_tick, slow_tick] @ missing_tick # [cancelled_tick]) =
     (LimitReached, 2,
      snd (snd (run_loop demo_monitor (Some 12) 0 0 [quick_tick, timeout_tick, slow_tick]))
      @ [Stderr (limit_message 12)]) \<and>
   t_check late_tick - tenth < 12 \<and>
   run_loop demo_monitor (Some 12) tenth 0 ([] @ late_tick # [cancelled_tick]) =
     (LimitReached, 0, [] @ [Stderr (limit_message 12)]) \<and>
   (\<exists>d pre env post n cs. Some 12 = Some d \<and> d \<noteq> 0 \<and>
      [quick_tick, timeout_tick, slow_tick, missing_tick] = pre @ env # post \<and>
      run_loop demo_monitor (Some 12) 0 0 pre = (StillRunning, n, cs) \<and> running env \<and>
      float_ge_int (float_sub (Fin (t_check env)) (Fin 0)) d \<and>
      run_loop demo_monitor (Some 12) 0 0 [quick_tick, timeout_tick, slow_tick, missing_tick] =
        (LimitReached, n, cs @ [Stderr (limit_message d)]))"
proof -
  let ?pre = "[quick_tick, timeout_tick, slow_tick]"
  let ?cs = "snd (snd (run_loop demo_monitor (Some 12) 0 0 ?pre))"
  have h1: "run_loop demo_monitor (Some 12) 0 0 ?pre = (StillRunning, 2, ?cs) \<and>
    running missing_tick \<and> (12::int) \<noteq> 0 \<and>
    float_ge_int (float_sub (Fin (t_check missing_tick)) (Fin 0)) 12"
    by code_simp
  have h2: "fst (run_loop demo_monitor (Some 12) 0 0
      [quick_tick, timeout_tick, slow_tick, missing_tick]) = LimitReached"
    by code_simp
  have h3: "run_loop demo_monitor (Some 12) tenth 0 [] = (StillRunning, 0, []) \<and>
    running late_tick \<and> (12::int) \<noteq> 0 \<and>
    float_ge_int (float_sub (Fin (t_check late_tick)) (Fin tenth)) 12"
    by code_simp
  have h4: "t_check late_tick - tenth < 12" by code_simp
  note t1 = duration_checked_first [of demo_monitor 12 0 0 ?pre 2 ?cs missing_tick
      "[cancelled_tick]", THEN conjunct1, rule_format, OF h1]
  note t2 = duration_checked_first [of demo_monitor _ 0 0 _ _ _ _ _ "Some 12"
      "[quick_tick, timeout_tick, slow_tick, missing_tick]", THEN conjunct2, rule_format, OF h2]
  note t3 = duration_checked_first [of demo_monitor 12 tenth 0 "[]" 0 "[]" late_tick
      "[cancelled_tick]", THEN conjunct1, rule_format, OF h3]
  from t1 t2 t3 h4 show ?thesis by blast
qed



text \<open>
  C10. A duration of 0 is no limit: the run with duration 0 is the run with no duration,
  call for call; it is never left by the limit, only by cancellation or by a failure of
  the probe; and as long as the passes go on it is still running, whatever the clock says.
\<close>

theorem zero_duration_is_unbounded:
  "run self (Some 0) st envs = run self None st envs \<and>
   fst (run self (Some 0) st envs) \<in> {Cancelled, ProbeFailed, BinaryMissing, StillRunning} \<and>
   (list_all tick_goes_on envs \<longrightarrow> fst (run self (Some 0) st envs) = StillRunning)"
proof -
  have same: "run self (Some 0) st envs = run self None st envs"
    by (simp add: run_def run_loop_zero)
  have oc: "fst (run self None st envs) = fst (run_loop self None st 0 envs)"
    using run_calls [of self None st envs] by blast
  from oc run_loop_unbounded_outcome [of self st 0 envs]
  have a: "fst (run self None st envs) \<in> {Cancelled, ProbeFailed, BinaryMissing, StillRunning}"
    by simp
  from oc run_loop_goes_on [of envs self st 0]
  have b: "list_all tick_goes_on envs \<longrightarrow> fst (run self None st envs) = StillRunning"
    by simp
  from same a b show ?thesis by simp
qed

text \<open>
  Three passes that go on, eleven seconds after the start: with a duration of 0 the loop
  is still running, with a duration of one second it has stopped at the limit.
\<close>

theorem zero_duration_is_unbounded_witness:
  "run demo_monitor (Some 0) 0 [quick_tick, timeout_tick, slow_tick] =
     run demo_monitor None 0 [quick_tick, timeout_tick, slow_tick] \<and>
   fst (run demo_monitor (Some 0) 0 [quick_tick, timeout_tick, slow_tick]) = StillRunning \<and>
   fst (run demo_monitor (Some 1) 0 [quick_tick, timeout_tick, slow_tick]) = LimitReached"
proof -
  have h: "list_all tick_goes_on [quick_tick, timeout_tick, slow_tick]" by code_simp
  have c: "fst (run demo_monitor (Some 1) 0 [quick_tick, timeout_tick, slow_tick]) = LimitReached"
    by code_simp
  from zero_duration_is_unbounded [of demo_monitor 0 "[quick_tick, timeout_tick, slow_tick]"] h c
  show ?thesis by blast
qed

end
